theory Spec2Isabelle
  imports Main
begin

section \<open>Asynchronous operations and settled results\<close>

text \<open>
  The combinators of \<^verbatim>\<open>src/asyncUtils/async-utils.ts\<close> take caller-supplied
  asynchronous operations \<^verbatim>\<open>() => Promise<any>\<close>. An invocation of such an
  operation may read and change the caller's variables (the tests count invocations in
  a captured \<^verbatim>\<open>count\<close>) and its promise either fulfils with a value or rejects with
  an error. An operation is therefore a function from the caller's state to an outcome
  and the new state: \<open>Inr v\<close> is a promise fulfilled with \<open>v\<close>, \<open>Inl e\<close> a promise
  rejected with \<open>e\<close>.
  The retry family, \<^verbatim>\<open>circuitBreaker\<close> and \<^verbatim>\<open>debounceAsync\<close> invoke the operation
  under \<^verbatim>\<open>try\<close> and \<^verbatim>\<open>await\<close> or inside an \<^verbatim>\<open>async\<close> callback, where an
  operation that throws before it returns its promise does the same as one whose promise
  rejects. \<^verbatim>\<open>memoizeAsync\<close> tells the two apart and is modelled with both
  (\<open>invocation\<close> below).

  Attempt counts and delays are TypeScript \<^verbatim>\<open>number\<close>s; they are modelled as
  integers (milliseconds for the delays), zero and negative values included.
\<close>

type_synonym ('e, 'v, 's) operation = "'s \<Rightarrow> ('e + 'v) \<times> 's"

text \<open>
  What a rejected promise of a combinator carries: the error of the wrapped operation,
  passed on unchanged, or a \<^verbatim>\<open>new Error(message)\<close> made by the combinator itself.
\<close>

datatype 'e failure = Thrown 'e | Error string

text \<open>
  How the promise returned by a combinator settles. An \<^verbatim>\<open>async\<close> function whose
  body ends without \<^verbatim>\<open>return\<close> fulfils its promise with \<^verbatim>\<open>undefined\<close>.
\<close>

datatype ('e, 'v) settled = Resolved 'v | ResolvedUndefined | Rejected "'e failure"

text \<open>
  Counting the invocations of an operation, as the tests do with \<^verbatim>\<open>count++\<close>
  in the operation's body.
\<close>

definition counting :: "('e, 'v, 's) operation \<Rightarrow> ('e, 'v, 's \<times> nat) operation" where
  "counting fn = (\<lambda>(s, n). case fn s of (r, s') \<Rightarrow> (r, (s', Suc n)))"

text \<open>
  The outcomes of the first \<open>n\<close> invocations of an operation, each invocation starting
  in the state the previous one left.
\<close>

fun invocations :: "('e, 'v, 's) operation \<Rightarrow> 's \<Rightarrow> nat \<Rightarrow> ('e + 'v) list" where
  "invocations fn s 0 = []"
| "invocations fn s (Suc n) = (case fn s of (r, s') \<Rightarrow> r # invocations fn s' n)"

section \<open>The retry family\<close>

subsection \<open>retry\<close>

text \<open>
  \<^verbatim>\<open>
  export async function retry(fn, retries) {
      for (let i = 0; i < retries; i++) {
          try { return await fn(); }
          catch (error) { if (i === retries - 1) { throw error; } }
      }
  }
  \<close>
  The loop is \<open>retry_loop\<close>, with the loop variable \<open>i\<close> as an argument; leaving
  the loop reaches the end of the body, which fulfils with \<^verbatim>\<open>undefined\<close>.
\<close>

function retry_loop ::
  "('e, 'v, 's) operation \<Rightarrow> int \<Rightarrow> int \<Rightarrow> 's \<Rightarrow> ('e, 'v) settled \<times> 's" where
  "retry_loop fn retries i s =
     (if i < retries then
        (case fn s of
           (Inr v, s') \<Rightarrow> (Resolved v, s')
         | (Inl error, s') \<Rightarrow>
             (if i = retries - 1 then (Rejected (Thrown error), s')
              else retry_loop fn retries (i + 1) s'))
      else (ResolvedUndefined, s))"
  by pat_completeness auto
termination
  by (relation "measure (\<lambda>(fn, retries, i, s). nat (retries - i))") auto

definition retry :: "('e, 'v, 's) operation \<Rightarrow> int \<Rightarrow> 's \<Rightarrow> ('e, 'v) settled \<times> 's" where
  "retry fn retries s = retry_loop fn retries 0 s"

subsection \<open>retryWithDelay and retryWithBackoff\<close>

text \<open>
  \<^verbatim>\<open>
  export async function retryWithDelay(asyncOperation, maxRetries, delay) {
      let retries = 0;
      while (retries < maxRetries) {
          try { return await asyncOperation(); }
          catch (error) {
              retries++;
              await new Promise(resolve => setTimeout(resolve, delay));
          }
      }
      throw new Error('Retry limit exceeded');
  }
  \<close>
  The result is the settled promise, the caller's state and the list of the delays
  passed to \<^verbatim>\<open>setTimeout\<close>, in the order of the waits.
\<close>

function retryWithDelay_loop ::
  "('e, 'v, 's) operation \<Rightarrow> int \<Rightarrow> int \<Rightarrow> int \<Rightarrow> 's \<Rightarrow> int list
     \<Rightarrow> ('e, 'v) settled \<times> 's \<times> int list" where
  "retryWithDelay_loop asyncOperation maxRetries delay retries s waits =
     (if retries < maxRetries then
        (case asyncOperation s of
           (Inr v, s') \<Rightarrow> (Resolved v, s', waits)
         | (Inl error, s') \<Rightarrow>
             retryWithDelay_loop asyncOperation maxRetries delay (retries + 1) s'
               (waits @ [delay]))
      else (Rejected (Error ''Retry limit exceeded''), s, waits))"
  by pat_completeness auto
termination
  by (relation "measure (\<lambda>(fn, maxRetries, delay, retries, s, waits). nat (maxRetries - retries))")
     auto

definition retryWithDelay ::
  "('e, 'v, 's) operation \<Rightarrow> int \<Rightarrow> int \<Rightarrow> 's \<Rightarrow> ('e, 'v) settled \<times> 's \<times> int list" where
  "retryWithDelay asyncOperation maxRetries delay s =
     retryWithDelay_loop asyncOperation maxRetries delay 0 s []"

text \<open>
  \<^verbatim>\<open>
  export async function retryWithBackoff(asyncOperation, maxRetries, baseDelay, maxDelay) {
      let retries = 0;
      let delay = baseDelay;
      while (retries < maxRetries) {
          try { return await asyncOperation(); }
          catch (error) {
              retries++;
              await new Promise(resolve => setTimeout(resolve, delay));
              delay = Math.min(delay * 2, maxDelay);
          }
      }
      throw new Error('Retry limit exceeded');
  }
  \<close>
\<close>

function retryWithBackoff_loop ::
  "('e, 'v, 's) operation \<Rightarrow> int \<Rightarrow> int \<Rightarrow> int \<Rightarrow> int \<Rightarrow> 's \<Rightarrow> int list
     \<Rightarrow> ('e, 'v) settled \<times> 's \<times> int list" where
  "retryWithBackoff_loop asyncOperation maxRetries maxDelay retries delay s waits =
     (if retries < maxRetries then
        (case asyncOperation s of
           (Inr v, s') \<Rightarrow> (Resolved v, s', waits)
         | (Inl error, s') \<Rightarrow>
             retryWithBackoff_loop asyncOperation maxRetries maxDelay (retries + 1)
               (min (delay * 2) maxDelay) s' (waits @ [delay]))
      else (Rejected (Error ''Retry limit exceeded''), s, waits))"
  by pat_completeness auto
termination
  by (relation "measure (\<lambda>(fn, maxRetries, maxDelay, retries, delay, s, waits).
                  nat (maxRetries - retries))") auto

definition retryWithBackoff ::
  "('e, 'v, 's) operation \<Rightarrow> int \<Rightarrow> int \<Rightarrow> int \<Rightarrow> 's \<Rightarrow> ('e, 'v) settled \<times> 's \<times> int list" where
  "retryWithBackoff asyncOperation maxRetries baseDelay maxDelay s =
     retryWithBackoff_loop asyncOperation maxRetries maxDelay 0 baseDelay s []"

text \<open>
  The delay sequence as the specification words it: the wait of failed attempt \<open>k\<close>
  (counted from 1) is \<open>min (baseDelay * 2 ^ (k - 1)) maxDelay\<close>.
\<close>

definition spec_backoff_wait :: "int \<Rightarrow> int \<Rightarrow> nat \<Rightarrow> int" where
  "spec_backoff_wait baseDelay maxDelay k = min (baseDelay * 2 ^ (k - 1)) maxDelay"

text \<open>
  The delays of \<open>k\<close> failed attempts in a row that start with the delay \<open>delay\<close>: each
  wait uses the current delay, which is then doubled and capped.
\<close>

fun backoff_delays :: "int \<Rightarrow> int \<Rightarrow> nat \<Rightarrow> int list" where
  "backoff_delays maxDelay delay 0 = []"
| "backoff_delays maxDelay delay (Suc k) =
     delay # backoff_delays maxDelay (min (delay * 2) maxDelay) k"

text \<open>
  An operation of the tests (\<^verbatim>\<open>count++; if (count < 3) throw new Error('Failed');
  return count;\<close>) and one that always fails; the state is the captured counter.
\<close>

definition flaky :: "(string, nat, nat) operation" where
  "flaky count = (if Suc count < 3 then (Inl ''Failed'', Suc count) else (Inr (Suc count), Suc count))"

definition failing :: "(string, nat, nat) operation" where
  "failing count = (Inl ''Failed'', Suc count)"

text \<open>
  What a run of attempts settles to when the attempts stop at the first success and the
  last failure is surfaced; used to describe \<open>retry_loop\<close>.
\<close>

fun attempts_outcome :: "('e + 'v) list \<Rightarrow> ('e, 'v) settled" where
  "attempts_outcome [] = ResolvedUndefined"
| "attempts_outcome (Inr v # rs) = Resolved v"
| "attempts_outcome (Inl e # rs) = (if rs = [] then Rejected (Thrown e) else attempts_outcome rs)"

section \<open>memoizeAsync\<close>

text \<open>
  \<^verbatim>\<open>
  export function memoizeAsync(fn) {
      const cache = new Map<string, Promise<any>>();
      return async (...args) => {
          const key = JSON.stringify(args);
          if (!cache.has(key)) { cache.set(key, fn(...args)); }
          return cache.get(key);
      };
  }
  \<close>
  \<^verbatim>\<open>fn(...args)\<close> is evaluated before \<^verbatim>\<open>cache.set\<close> is called. An invocation of
  \<^verbatim>\<open>fn\<close> either throws, and then nothing is stored and the exception rejects the
  promise of the \<^verbatim>\<open>async\<close> wrapper, or it returns a promise, which is stored
  whether it will fulfil or reject.
\<close>

datatype ('e, 'v) invoked = Throws 'e | Returns "'e + 'v"

type_synonym ('e, 'v, 's) invocation = "'s \<Rightarrow> ('e, 'v) invoked \<times> 's"

text \<open>An operation that always returns its promise, as an \<^verbatim>\<open>async\<close> function does.\<close>

definition returning :: "('e, 'v, 's) operation \<Rightarrow> ('e, 'v, 's) invocation" where
  "returning fn s = (case fn s of (p, s') \<Rightarrow> (Returns p, s'))"

text \<open>
  The cache maps a key to the promise that \<^verbatim>\<open>fn\<close> returned; a promise is
  represented by the outcome it settles to. \<^verbatim>\<open>JSON.stringify\<close> is a parameter.
  The wrapper takes the arguments, the cache and the caller's state; a fresh wrapper
  starts with \<open>new_cache\<close>. The wrapper is \<^verbatim>\<open>async\<close>: its promise adopts the
  cached promise, and \<^verbatim>\<open>cache.get\<close> of an absent key would give \<^verbatim>\<open>undefined\<close>.
\<close>

type_synonym ('e, 'v) cache = "string \<rightharpoonup> ('e + 'v)"

text \<open>Awaiting or returning a promise: the result settles as the promise does.\<close>

definition adopt :: "'e + 'v \<Rightarrow> ('e, 'v) settled" where
  "adopt p = (case p of Inr v \<Rightarrow> Resolved v | Inl e \<Rightarrow> Rejected (Thrown e))"

definition new_cache :: "('e, 'v) cache" where
  "new_cache = Map.empty"

definition cache_get :: "('e, 'v) cache \<Rightarrow> string \<Rightarrow> ('e, 'v) settled" where
  "cache_get cache key = (case cache key of Some p \<Rightarrow> adopt p | None \<Rightarrow> ResolvedUndefined)"

definition memoizeAsync ::
  "('a \<Rightarrow> string) \<Rightarrow> ('a \<Rightarrow> ('e, 'v, 's) invocation) \<Rightarrow> 'a \<Rightarrow> ('e, 'v) cache \<times> 's
     \<Rightarrow> ('e, 'v) settled \<times> (('e, 'v) cache \<times> 's)" where
  "memoizeAsync stringify fn args = (\<lambda>(cache, s).
     let key = stringify args
     in if cache key = None
        then (case fn args s of
                (Throws error, s') \<Rightarrow> (Rejected (Thrown error), (cache, s'))
              | (Returns p, s') \<Rightarrow>
                  (let cache' = cache(key \<mapsto> p) in (cache_get cache' key, (cache', s'))))
        else (cache_get cache key, (cache, s)))"

text \<open>A sequence of calls of one wrapper, each with its own arguments.\<close>

fun memo_calls ::
  "('a \<Rightarrow> string) \<Rightarrow> ('a \<Rightarrow> ('e, 'v, 's) invocation) \<Rightarrow> 'a list \<Rightarrow> ('e, 'v) cache \<times> 's
     \<Rightarrow> ('e, 'v) cache \<times> 's" where
  "memo_calls stringify fn [] st = st"
| "memo_calls stringify fn (a # as) st =
     memo_calls stringify fn as (snd (memoizeAsync stringify fn a st))"


definition refusing :: "nat \<Rightarrow> (string, nat, nat) operation" where
  "refusing x count = (Inl ''Failed'', Suc count)"

definition throwing :: "nat \<Rightarrow> (string, nat, nat) invocation" where
  "throwing x count = (Throws ''Failed'', Suc count)"

text \<open>\<^verbatim>\<open>JSON.stringify\<close> on an argument list of one natural number, as in the test.\<close>

fun decimal :: "nat \<Rightarrow> string" where
  "decimal n =
     (if n < 10 then [''0123456789'' ! n]
      else decimal (n div 10) @ [''0123456789'' ! (n mod 10)])"

definition stringify_nat :: "nat \<Rightarrow> string" where
  "stringify_nat x = ''['' @ decimal x @ '']''"

section \<open>batch\<close>

text \<open>
  The results of the operations are \<^verbatim>\<open>any\<close>; \<^verbatim>\<open>Array.prototype.flat\<close> treats
  arrays and other values differently, so the values are modelled with their arrays.
\<close>

datatype jsval = Undefined | Num int | Str string | Arr "jsval list"

text \<open>\<^verbatim>\<open>xs.flat()\<close>: the elements that are arrays are spliced in, one level deep.\<close>

definition flat :: "jsval list \<Rightarrow> jsval list" where
  "flat xs = concat (map (\<lambda>x. case x of Arr ys \<Rightarrow> ys | _ \<Rightarrow> [x]) xs)"

text \<open>
  \<^verbatim>\<open>xs.slice(start, end)\<close> on integers: a negative index counts from the end, and
  both are clamped to the array.
\<close>

definition slice :: "'a list \<Rightarrow> int \<Rightarrow> int \<Rightarrow> 'a list" where
  "slice xs start end =
     (let len = int (length xs);
          k = (if start < 0 then max (len + start) 0 else min start len);
          final = (if end < 0 then max (len + end) 0 else min end len)
      in take (nat (final - k)) (drop (nat k) xs))"

text \<open>
  \<^verbatim>\<open>
  const batches = [];
  for (let i = 0; i < fns.length; i += batchSize) {
      batches.push(fns.slice(i, i + batchSize));
  }
  \<close>
  With \<^verbatim>\<open>batchSize <= 0\<close> and a non-empty \<^verbatim>\<open>fns\<close> the loop never ends: \<open>None\<close>.
\<close>

partial_function (option) batches_loop ::
  "'a list \<Rightarrow> int \<Rightarrow> int \<Rightarrow> 'a list list \<Rightarrow> 'a list list option" where
  "batches_loop fns batchSize i batches =
     (if i < int (length fns)
      then batches_loop fns batchSize (i + batchSize) (batches @ [slice fns i (i + batchSize)])
      else Some batches)"

text \<open>
  The promises of \<open>batch\<close> settle in an order that the operations decide. A promise is
  the time at which it settles and its outcome; an operation of \<open>batch\<close> returns such
  a promise.
\<close>

type_synonym ('e, 'v) promise = "nat \<times> ('e + 'v)"

type_synonym ('e, 'v, 's) timed_operation = "'s \<Rightarrow> ('e, 'v) promise \<times> 's"

text \<open>\<^verbatim>\<open>batch.map(fn => fn())\<close>: the operations are invoked in order.\<close>

fun invoke_all :: "('e, 'v, 's) timed_operation list \<Rightarrow> 's \<Rightarrow> ('e, 'v) promise list \<times> 's" where
  "invoke_all [] s = ([], s)"
| "invoke_all (fn # fns) s =
     (case fn s of (p, s') \<Rightarrow> (case invoke_all fns s' of (ps, s'') \<Rightarrow> (p # ps, s'')))"

text \<open>
  \<^verbatim>\<open>Promise.all\<close>: fulfilled with all values in the order of the array once every
  promise is fulfilled; rejected with the reason of the promise that rejects first
  (the earlier one in the array when two reject at the same time).
\<close>

definition rejections :: "('e, 'v) promise list \<Rightarrow> (nat \<times> 'e) list" where
  "rejections ps = List.map_filter (\<lambda>(t, r). case r of Inl e \<Rightarrow> Some (t, e) | Inr v \<Rightarrow> None) ps"

definition fulfilments :: "('e, 'v) promise list \<Rightarrow> 'v list" where
  "fulfilments ps = List.map_filter (\<lambda>(t, r). case r of Inl e \<Rightarrow> None | Inr v \<Rightarrow> Some v) ps"

definition earliest :: "nat \<times> 'e \<Rightarrow> (nat \<times> 'e) list \<Rightarrow> nat \<times> 'e" where
  "earliest r rs = fold (\<lambda>q best. if fst q < fst best then q else best) rs r"

definition promise_all :: "('e, 'v) promise list \<Rightarrow> ('e, 'v list) promise" where
  "promise_all ps =
     (case rejections ps of
        [] \<Rightarrow> (fold max (map fst ps) 0, Inr (fulfilments ps))
      | r # rs \<Rightarrow> (case earliest r rs of (t, e) \<Rightarrow> (t, Inl e)))"

text \<open>\<^verbatim>\<open>p.then(f)\<close> with a function that does not throw.\<close>

definition then_promise :: "('e, 'v) promise \<Rightarrow> ('v \<Rightarrow> 'w) \<Rightarrow> ('e, 'w) promise" where
  "then_promise p f = (case p of (t, Inr v) \<Rightarrow> (t, Inr (f v)) | (t, Inl e) \<Rightarrow> (t, Inl e))"

text \<open>
  \<^verbatim>\<open>batches.map(batch => Promise.all(batch.map(fn => fn())).then(batchResults =>
  batchResults.flat()))\<close>: every batch is started, one after the other, before any
  promise is awaited.
\<close>

fun start_batches ::
  "('e, jsval, 's) timed_operation list list \<Rightarrow> 's \<Rightarrow> ('e, jsval) promise list \<times> 's" where
  "start_batches [] s = ([], s)"
| "start_batches (batch # batches) s =
     (case invoke_all batch s of (ps, s') \<Rightarrow>
        (case start_batches batches s' of (qs, s'') \<Rightarrow>
           (then_promise (promise_all ps) (\<lambda>batchResults. Arr (flat batchResults)) # qs, s'')))"

text \<open>
  \<^verbatim>\<open>
  export async function batch(fns, batchSize) {
      const batches = []; for (...) {...}
      const results = await Promise.all(batches.map(...));
      return results.flat();
  }
  \<close>
  \<open>None\<close>: the call never returns.
\<close>

definition batch ::
  "('e, jsval, 's) timed_operation list \<Rightarrow> int \<Rightarrow> 's \<Rightarrow> (('e, jsval list) settled \<times> 's) option" where
  "batch fns batchSize s =
     (case batches_loop fns batchSize 0 [] of
        None \<Rightarrow> None
      | Some batches \<Rightarrow>
          (case start_batches batches s of (ps, s') \<Rightarrow>
             Some (case promise_all ps of
                     (t, Inr results) \<Rightarrow> Resolved (flat results)
                   | (t, Inl e) \<Rightarrow> Rejected (Thrown e),
                   s')))"

text \<open>An operation that settles at time \<open>t\<close> with the value \<open>v\<close> and counts its invocation.\<close>

definition resolving :: "nat \<Rightarrow> jsval \<Rightarrow> (string, jsval, nat) timed_operation" where
  "resolving t v count = ((t, Inr v), Suc count)"

section \<open>circuitBreaker\<close>

text \<open>
  \<^verbatim>\<open>
  export async function circuitBreaker(asyncOperation, maxFailures, cooldownPeriod) {
      let failures = 0;
      let circuitOpen = false;
      return async function () {
          if (circuitOpen) { throw new Error('Circuit is open'); }
          try {
              const result = await asyncOperation();
              failures = 0;
              return result;
          } catch (error) {
              failures++;
              if (failures >= maxFailures) {
                  circuitOpen = true;
                  setTimeout(() => { circuitOpen = false; failures = 0; }, cooldownPeriod);
              }
              throw error;
          }
      }();
  }
  \<close>
  The two variables are locals of \<^verbatim>\<open>circuitBreaker\<close>. The inner function is
  \<open>circuit_attempt\<close>: it takes the variables and returns them updated, with the delays
  of the reset timers it has scheduled. The inner function is called on the spot
  (\<^verbatim>\<open>}();\<close>), so \<open>circuitBreaker\<close> runs it once on fresh variables and returns its
  promise; the variables belong to that one call.
\<close>

record breaker =
  failures :: int
  circuitOpen :: bool

definition circuit_attempt ::
  "('e, 'v, 's) operation \<Rightarrow> int \<Rightarrow> int \<Rightarrow> breaker \<Rightarrow> 's
     \<Rightarrow> ('e, 'v) settled \<times> 's \<times> breaker \<times> int list" where
  "circuit_attempt asyncOperation maxFailures cooldownPeriod b s =
     (if circuitOpen b then (Rejected (Error ''Circuit is open''), s, b, [])
      else
        (case asyncOperation s of
           (Inr result, s') \<Rightarrow> (Resolved result, s', b\<lparr>failures := 0\<rparr>, [])
         | (Inl error, s') \<Rightarrow>
             (let b' = b\<lparr>failures := failures b + 1\<rparr>
              in if failures b' \<ge> maxFailures
                 then (Rejected (Thrown error), s', b'\<lparr>circuitOpen := True\<rparr>, [cooldownPeriod])
                 else (Rejected (Thrown error), s', b', []))))"

definition circuitBreaker ::
  "('e, 'v, 's) operation \<Rightarrow> int \<Rightarrow> int \<Rightarrow> 's \<Rightarrow> ('e, 'v) settled \<times> 's" where
  "circuitBreaker asyncOperation maxFailures cooldownPeriod s =
     (case circuit_attempt asyncOperation maxFailures cooldownPeriod
             \<lparr>failures = 0, circuitOpen = False\<rparr> s of
        (r, s', b, timers) \<Rightarrow> (r, s'))"

text \<open>Calling a combinator \<open>n\<close> times in a row; the results in the order of the calls.\<close>

fun repeatedly :: "nat \<Rightarrow> ('s \<Rightarrow> 'r \<times> 's) \<Rightarrow> 's \<Rightarrow> 'r list \<times> 's" where
  "repeatedly 0 f s = ([], s)"
| "repeatedly (Suc n) f s =
     (case f s of (r, s') \<Rightarrow> (case repeatedly n f s' of (rs, s'') \<Rightarrow> (r # rs, s'')))"

section \<open>debounceAsync\<close>

text \<open>
  \<^verbatim>\<open>
  export function debounceAsync(fn, delay) {
      let timer: NodeJS.Timeout | null = null;
      return (...args) => {
          if (timer) clearTimeout(timer);
          return new Promise((resolve) => {
              timer = setTimeout(async () => {
                  resolve(await fn(...args));
                  timer = null;
              }, delay);
          });
      };
  }
  \<close>
  The wrapper lives in an event loop. Its state is the clock, the variable
  \<^verbatim>\<open>timer\<close>, the timeouts that are scheduled, the promises the wrapper has returned
  (a call is known by the index of its promise), the timer callbacks that are suspended
  at \<^verbatim>\<open>await fn(...args)\<close> with the outcome the operation will settle to, and the
  caller's state. A timeout handle is always truthy, so \<^verbatim>\<open>if (timer)\<close> is the test
  that \<^verbatim>\<open>timer\<close> is not \<^verbatim>\<open>null\<close>.
\<close>

datatype ('e, 'v) pstate = Pending | Settled "('e, 'v) settled"

record 'a timeout =
  t_handle :: nat
  t_due :: nat
  t_args :: 'a
  t_promise :: nat

record ('a, 'e, 'v, 's) debounced =
  clock :: nat
  timer :: "nat option"
  timeouts :: "'a timeout list"
  next_handle :: nat
  promises :: "('e, 'v) pstate list"
  awaiting :: "(nat \<times> ('e + 'v)) list"
  caller :: 's

text \<open>The state of a fresh wrapper: \<^verbatim>\<open>timer = null\<close>, nothing scheduled.\<close>

definition debounceAsync :: "'s \<Rightarrow> ('a, 'e, 'v, 's) debounced" where
  "debounceAsync s =
     \<lparr>clock = 0, timer = None, timeouts = [], next_handle = 0, promises = [],
      awaiting = [], caller = s\<rparr>"

definition clearTimeout :: "nat \<Rightarrow> ('a, 'e, 'v, 's) debounced \<Rightarrow> ('a, 'e, 'v, 's) debounced" where
  "clearTimeout h st = st\<lparr>timeouts := filter (\<lambda>t. t_handle t \<noteq> h) (timeouts st)\<rparr>"

text \<open>
  A call of the wrapper: the timeout named by \<^verbatim>\<open>timer\<close> is cleared, a new promise
  is made and its executor schedules the new timeout. The result is the index of the
  promise the call returns.
\<close>

definition debounced_call ::
  "nat \<Rightarrow> 'a \<Rightarrow> ('a, 'e, 'v, 's) debounced \<Rightarrow> nat \<times> ('a, 'e, 'v, 's) debounced" where
  "debounced_call delay args st =
     (let st1 = (case timer st of Some h \<Rightarrow> clearTimeout h st | None \<Rightarrow> st);
          p = length (promises st1);
          h = next_handle st1
      in (p, st1\<lparr>promises := promises st1 @ [Pending],
                 timeouts := timeouts st1 @
                   [\<lparr>t_handle = h, t_due = clock st1 + delay, t_args = args, t_promise = p\<rparr>],
                 next_handle := Suc h,
                 timer := Some h\<rparr>))"

text \<open>
  A timeout fires: the callback invokes \<^verbatim>\<open>fn(...args)\<close> and is suspended at the
  \<^verbatim>\<open>await\<close>.
\<close>

definition fire ::
  "('a \<Rightarrow> ('e, 'v, 's) operation) \<Rightarrow> 'a timeout \<Rightarrow> ('a, 'e, 'v, 's) debounced
     \<Rightarrow> ('a, 'e, 'v, 's) debounced" where
  "fire fn t st =
     (case fn (t_args t) (caller st) of
        (r, s') \<Rightarrow> st\<lparr>caller := s', awaiting := awaiting st @ [(t_promise t, r)]\<rparr>)"

text \<open>Time passes: the timeouts that are due fire, in the order they were scheduled.\<close>

definition elapse ::
  "('a \<Rightarrow> ('e, 'v, 's) operation) \<Rightarrow> nat \<Rightarrow> ('a, 'e, 'v, 's) debounced
     \<Rightarrow> ('a, 'e, 'v, 's) debounced" where
  "elapse fn d st =
     (let now = clock st + d
      in fold (fire fn) (filter (\<lambda>t. t_due t \<le> now) (timeouts st))
           (st\<lparr>clock := now, timeouts := filter (\<lambda>t. \<not> t_due t \<le> now) (timeouts st)\<rparr>))"

text \<open>\<^verbatim>\<open>resolve(v)\<close> settles a pending promise and does nothing to a settled one.\<close>

definition resolve :: "nat \<Rightarrow> 'v \<Rightarrow> ('e, 'v) pstate list \<Rightarrow> ('e, 'v) pstate list" where
  "resolve p v ps =
     (if p < length ps \<and> ps ! p = Pending then ps[p := Settled (Resolved v)] else ps)"

text \<open>
  The operation invoked for call \<open>p\<close> settles and the suspended callback goes on: with
  a value, \<^verbatim>\<open>resolve(value); timer = null;\<close> with a rejection the \<^verbatim>\<open>await\<close>
  throws inside the callback, whose own promise nobody holds, and the rest of the
  callback is skipped.
\<close>

definition settle :: "nat \<Rightarrow> ('a, 'e, 'v, 's) debounced \<Rightarrow> ('a, 'e, 'v, 's) debounced" where
  "settle p st =
     (case find (\<lambda>(q, r). q = p) (awaiting st) of
        None \<Rightarrow> st
      | Some (q, r) \<Rightarrow>
          (let st1 = st\<lparr>awaiting := remove1 (q, r) (awaiting st)\<rparr>
           in case r of
                Inr v \<Rightarrow> st1\<lparr>promises := resolve p v (promises st1), timer := None\<rparr>
              | Inl e \<Rightarrow> st1))"

text \<open>What can happen to a wrapper, and a run of such events.\<close>

datatype 'a event = Call 'a | Elapse nat | Settle nat

fun step ::
  "('a \<Rightarrow> ('e, 'v, 's) operation) \<Rightarrow> nat \<Rightarrow> 'a event \<Rightarrow> ('a, 'e, 'v, 's) debounced
     \<Rightarrow> ('a, 'e, 'v, 's) debounced" where
  "step fn delay (Call args) st = snd (debounced_call delay args st)"
| "step fn delay (Elapse d) st = elapse fn d st"
| "step fn delay (Settle p) st = settle p st"

definition run ::
  "('a \<Rightarrow> ('e, 'v, 's) operation) \<Rightarrow> nat \<Rightarrow> 'a event list \<Rightarrow> ('a, 'e, 'v, 's) debounced
     \<Rightarrow> ('a, 'e, 'v, 's) debounced" where
  "run fn delay evs st = fold (step fn delay) evs st"

text \<open>
  A burst of calls in one debounce cycle: a first call, and further calls each less than
  \<open>delay\<close> after the one before it (\<open>gaps\<close> pairs the time since the previous call with
  the arguments of the call).
\<close>

definition burst :: "'a \<Rightarrow> (nat \<times> 'a) list \<Rightarrow> 'a event list" where
  "burst a gaps = Call a # concat (map (\<lambda>(g, b). [Elapse g, Call b]) gaps)"

text \<open>The operations of the debounce examples: the arguments are ignored.\<close>

definition counted :: "unit \<Rightarrow> (string, nat, nat) operation" where
  "counted u count = (Inr (Suc count), Suc count)"

definition broken :: "unit \<Rightarrow> (string, nat, nat) operation" where
  "broken u count = (Inl ''Failed'', Suc count)"

text \<open>A wrapper that has been through one complete cycle: one call, executed and settled.\<close>

definition used_wrapper :: "(unit, string, nat, nat) debounced" where
  "used_wrapper = run counted 100 [Call (), Elapse 100, Settle 0] (debounceAsync 0)"

text \<open>
  Predicates on the state of a debounced wrapper. A promise is \<open>abandoned\<close> when it is
  pending and no scheduled timeout and no callback awaiting a value can resolve it. The
  state is \<open>wf\<close> when the scheduled timeouts and the suspended callbacks belong to
  different calls, each with a pending promise. It is \<open>unrejected\<close> when no promise is
  rejected.
\<close>

definition abandoned :: "nat \<Rightarrow> ('a, 'e, 'v, 's) debounced \<Rightarrow> bool" where
  "abandoned p st \<longleftrightarrow>
     p < length (promises st) \<and> promises st ! p = Pending
     \<and> p \<notin> t_promise ` set (timeouts st)
     \<and> (\<forall>v. (p, Inr v) \<notin> set (awaiting st))"

definition wf :: "('a, 'e, 'v, 's) debounced \<Rightarrow> bool" where
  "wf st \<longleftrightarrow>
     distinct (map t_promise (timeouts st)) \<and> distinct (map fst (awaiting st))
     \<and> t_promise ` set (timeouts st) \<inter> fst ` set (awaiting st) = {}
     \<and> (\<forall>q\<in>t_promise ` set (timeouts st) \<union> fst ` set (awaiting st).
           q < length (promises st) \<and> promises st ! q = Pending)"

definition unrejected :: "('a, 'e, 'v, 's) debounced \<Rightarrow> bool" where
  "unrejected st \<longleftrightarrow> (\<forall>p<length (promises st). \<forall>e. promises st ! p \<noteq> Settled (Rejected e))"

text \<open>
  The promise \<open>p\<close> \<open>resolves_to\<close> the value \<open>v\<close> when the callback of call \<open>p\<close> is
  suspended on an invocation that fulfils with \<open>v\<close>, or \<open>p\<close> is already fulfilled
  with \<open>v\<close>.
\<close>

definition resolves_to :: "nat \<Rightarrow> 'v \<Rightarrow> ('a, 'e, 'v, 's) debounced \<Rightarrow> bool" where
  "resolves_to p v st \<longleftrightarrow>
     wf st \<and> (p, Inr v) \<in> set (awaiting st)
     \<or> p < length (promises st) \<and> promises st ! p = Settled (Resolved v)"

section \<open>Properties of the retry family\<close>

declare retry_loop.simps [simp del]
declare retryWithDelay_loop.simps [simp del]
declare retryWithBackoff_loop.simps [simp del]

lemma nat_diff_step: "i < n \<Longrightarrow> nat (n - i) = Suc (nat (n - (i + 1)))" for i n :: int
  by simp

lemma retry_loop_attempts:
  "fst (retry_loop fn n i s) = attempts_outcome (invocations fn s (nat (n - i)))"
proof (induction fn n i s rule: retry_loop.induct)
  case (1 fn retries i s)
  show ?case
  proof (cases "i < retries")
    case False
    then show ?thesis by (simp add: retry_loop.simps [of fn retries i s])
  next
    case True
    obtain r s' where op: "fn s = (r, s')" by (cases "fn s")
    show ?thesis
    proof (cases r)
      case (Inr v)
      with True op show ?thesis
        by (simp add: retry_loop.simps [of fn retries i s] nat_diff_step [OF True])
    next
      case (Inl e)
      show ?thesis
      proof (cases "i = retries - 1")
        case True
        with Inl op show ?thesis
          by (subst retry_loop.simps) simp
      next
        case False
        with True have lt: "i + 1 < retries" by simp
        have ne: "invocations fn s' (nat (retries - (i + 1))) \<noteq> []"
          using lt by (cases "fn s'") (simp add: nat_diff_step [OF lt])
        from "1.IH" [OF True op [symmetric] Inl False]
        have "fst (retry_loop fn retries (i + 1) s')
              = attempts_outcome (invocations fn s' (nat (retries - (i + 1))))" by simp
        with True False Inl op ne show ?thesis
          by (simp add: retry_loop.simps [of fn retries i s] nat_diff_step [OF True])
      qed
    qed
  qed
qed


lemma attempts_outcome_Resolved_iff:
  "(\<exists>v. attempts_outcome rs = Resolved v) \<longleftrightarrow> (\<exists>v. Inr v \<in> set rs)"
  by (induction rs rule: attempts_outcome.induct) auto

lemma attempts_outcome_first:
  "attempts_outcome rs = Resolved v \<Longrightarrow>
     \<exists>k<length rs. rs ! k = Inr v \<and> (\<forall>j<k. \<exists>e. rs ! j = Inl e)"
proof (induction rs rule: attempts_outcome.induct)
  case 1
  then show ?case by simp
next
  case (2 v' rs)
  then show ?case by auto
next
  case (3 e rs)
  then have ne: "rs \<noteq> []" and "attempts_outcome rs = Resolved v"
    by (auto split: if_splits)
  with 3 obtain k where k: "k < length rs" "rs ! k = Inr v" "\<forall>j<k. \<exists>e. rs ! j = Inl e"
    by auto
  have "\<forall>j<Suc k. \<exists>e'. (Inl e # rs) ! j = Inl e'"
    using k(3) by (auto simp: nth_Cons split: nat.splits)
  with k show ?case by (intro exI [of _ "Suc k"]) simp
qed

lemma attempts_outcome_all_fail:
  "rs \<noteq> [] \<Longrightarrow> \<forall>r\<in>set rs. \<exists>e'. r = Inl e' \<Longrightarrow> last rs = Inl e \<Longrightarrow>
     attempts_outcome rs = Rejected (Thrown e)"
  by (induction rs rule: attempts_outcome.induct) auto

lemma length_invocations [simp]: "length (invocations fn s n) = n"
  by (induction n arbitrary: s) (auto split: prod.splits)

lemma retry_loop_counting:
  "snd (snd (retry_loop (counting fn) n i (s, c))) \<le> c + nat (n - i)"
proof (induction "nat (n - i)" arbitrary: i s c)
  case 0
  then show ?case by (subst retry_loop.simps) simp
next
  case (Suc m)
  then have lt: "i < n" and m: "m = nat (n - (i + 1))" by auto
  obtain r s' where op: "fn s = (r, s')" by (cases "fn s")
  show ?case
  proof (cases r)
    case (Inr v)
    with lt op show ?thesis by (subst retry_loop.simps) (simp add: counting_def)
  next
    case (Inl e)
    from Suc.hyps(1) [OF m, of s' "Suc c"] Suc.hyps(2) lt Inl op show ?thesis
      by (subst retry_loop.simps) (auto simp: counting_def)
  qed
qed

text \<open>
  C3. For \<open>maxAttempts \<ge> 1\<close>, \<open>retry\<close> fulfils exactly when one of the first
  \<open>maxAttempts\<close> invocations of the operation fulfils, and then with the value of the
  first invocation that does; when all of them reject, \<open>retry\<close> rejects with the error of
  the last one, unchanged; and the operation is invoked at most \<open>maxAttempts\<close> times.
\<close>

theorem retry_succeeds_iff:
  assumes "1 \<le> maxAttempts"
  shows "((\<exists>v. fst (retry fn maxAttempts s) = Resolved v) \<longleftrightarrow>
            (\<exists>v. Inr v \<in> set (invocations fn s (nat maxAttempts))))
       \<and> (\<forall>v. fst (retry fn maxAttempts s) = Resolved v \<longrightarrow>
            (\<exists>k<nat maxAttempts. invocations fn s (nat maxAttempts) ! k = Inr v
               \<and> (\<forall>j<k. \<exists>e. invocations fn s (nat maxAttempts) ! j = Inl e)))
       \<and> (\<forall>e. (\<forall>r\<in>set (invocations fn s (nat maxAttempts)). \<exists>e'. r = Inl e')
               \<and> last (invocations fn s (nat maxAttempts)) = Inl e \<longrightarrow>
            fst (retry fn maxAttempts s) = Rejected (Thrown e))
       \<and> snd (snd (retry (counting fn) maxAttempts (s, 0))) \<le> nat maxAttempts"
proof -
  let ?rs = "invocations fn s (nat maxAttempts)"
  have res: "fst (retry fn maxAttempts s) = attempts_outcome ?rs"
    by (simp add: retry_def retry_loop_attempts)
  have ne: "?rs \<noteq> []"
  proof
    assume "?rs = []"
    then have "length ?rs = 0" by simp
    with assms show False by simp
  qed
  have a: "(\<exists>v. fst (retry fn maxAttempts s) = Resolved v) \<longleftrightarrow> (\<exists>v. Inr v \<in> set ?rs)"
    by (simp only: res attempts_outcome_Resolved_iff)
  have b: "\<forall>v. fst (retry fn maxAttempts s) = Resolved v \<longrightarrow>
            (\<exists>k<nat maxAttempts. ?rs ! k = Inr v \<and> (\<forall>j<k. \<exists>e. ?rs ! j = Inl e))"
    using attempts_outcome_first [of ?rs] by (simp add: res)
  have c: "\<forall>e. (\<forall>r\<in>set ?rs. \<exists>e'. r = Inl e') \<and> last ?rs = Inl e \<longrightarrow>
            fst (retry fn maxAttempts s) = Rejected (Thrown e)"
    using attempts_outcome_all_fail [OF ne] by (simp add: res)
  have d: "snd (snd (retry (counting fn) maxAttempts (s, 0))) \<le> nat maxAttempts"
    using retry_loop_counting [of fn maxAttempts 0 s 0] by (simp add: retry_def)
  from a b c d show ?thesis by blast
qed

lemma flaky_run: "retry flaky 5 0 = (Resolved 3, 3)"
  by (simp add: retry_def retry_loop.simps flaky_def)

lemma failing_run: "retry failing 2 0 = (Rejected (Thrown ''Failed''), 2)"
  by (simp add: retry_def retry_loop.simps failing_def)

theorem retry_succeeds_iff_witness:
  "(1::int) \<le> 5
   \<and> invocations flaky 0 (nat 5) = [Inl ''Failed'', Inl ''Failed'', Inr 3, Inr 4, Inr 5]
   \<and> fst (retry flaky 5 0) = Resolved 3
   \<and> (\<exists>k<nat 5. invocations flaky 0 (nat 5) ! k = Inr 3
         \<and> (\<forall>j<k. \<exists>e. invocations flaky 0 (nat 5) ! j = Inl e))
   \<and> (1::int) \<le> 2
   \<and> invocations failing 0 (nat 2) = [Inl ''Failed'', Inl ''Failed'']
   \<and> fst (retry failing 2 0) = Rejected (Thrown ''Failed'')
   \<and> snd (snd (retry (counting failing) 2 (0, 0))) \<le> nat 2"
proof -
  have h5: "(1::int) \<le> 5" and h2: "(1::int) \<le> 2" by simp_all
  have r5: "fst (retry flaky 5 0) = Resolved 3" by (simp add: flaky_run)
  have inv5: "invocations flaky 0 (nat 5) = [Inl ''Failed'', Inl ''Failed'', Inr 3, Inr 4, Inr 5]"
    by (simp add: flaky_def eval_nat_numeral)
  have inv2: "invocations failing 0 (nat 2) = [Inl ''Failed'', Inl ''Failed'']"
    by (simp add: failing_def eval_nat_numeral)
  have all2: "\<forall>r\<in>set (invocations failing 0 (nat 2)). \<exists>e'. r = Inl e'"
    by (simp only: inv2) simp
  have last2: "last (invocations failing 0 (nat 2)) = Inl ''Failed''"
    by (simp only: inv2) simp
  note t5 = retry_succeeds_iff [OF h5, of flaky 0]
  note t2 = retry_succeeds_iff [OF h2, of failing 0]
  from t5 r5 have a: "\<exists>k<nat 5. invocations flaky 0 (nat 5) ! k = Inr 3
         \<and> (\<forall>j<k. \<exists>e. invocations flaky 0 (nat 5) ! j = Inl e)" by blast
  from t2 all2 last2 have b: "fst (retry failing 2 0) = Rejected (Thrown ''Failed'')" by blast
  from t2 have c: "snd (snd (retry (counting failing) 2 (0, 0))) \<le> nat 2" by blast
  from h5 h2 r5 inv5 inv2 a b c show ?thesis by blast
qed

text \<open>
  C5. With \<open>maxAttempts = 0\<close> none of the three invokes the operation (the caller's
  state is returned as it was). \<open>retryWithDelay\<close> and \<open>retryWithBackoff\<close> reject at once
  with \<^verbatim>\<open>Retry limit exceeded\<close>; \<open>retry\<close> does not fail: its loop is skipped, the body
  ends and the promise is fulfilled with \<^verbatim>\<open>undefined\<close>.
\<close>

theorem retry_zero_attempts:
  "retry fn 0 s = (ResolvedUndefined, s)
   \<and> retryWithDelay fn 0 delay s = (Rejected (Error ''Retry limit exceeded''), s, [])
   \<and> retryWithBackoff fn 0 baseDelay maxDelay s = (Rejected (Error ''Retry limit exceeded''), s, [])"
  by (simp add: retry_def retryWithDelay_def retryWithBackoff_def retry_loop.simps
        retryWithDelay_loop.simps retryWithBackoff_loop.simps)

lemma retryWithDelay_loop_all_fail:
  "\<forall>r\<in>set (invocations fn s (nat (n - i))). \<exists>e. r = Inl e \<Longrightarrow>
     fst (retryWithDelay_loop fn n d i s w) = Rejected (Error ''Retry limit exceeded'')"
proof (induction "nat (n - i)" arbitrary: i s w)
  case 0
  then show ?case by (subst retryWithDelay_loop.simps) simp
next
  case (Suc m)
  then have lt: "i < n" and m: "m = nat (n - (i + 1))" by auto
  obtain r s' where op: "fn s = (r, s')" by (cases "fn s")
  from Suc.prems Suc.hyps(2) [symmetric] op
  have r: "\<exists>e. r = Inl e" and rest: "\<forall>r\<in>set (invocations fn s' m). \<exists>e. r = Inl e"
    by auto
  from r obtain e where e: "r = Inl e" ..
  from Suc.hyps(1) [OF m, of s' "w @ [d]"] rest m lt e op show ?case
    by (subst retryWithDelay_loop.simps) simp
qed

lemma retryWithBackoff_loop_all_fail:
  "\<forall>r\<in>set (invocations fn s (nat (n - i))). \<exists>e. r = Inl e \<Longrightarrow>
     fst (retryWithBackoff_loop fn n md i d s w) = Rejected (Error ''Retry limit exceeded'')"
proof (induction "nat (n - i)" arbitrary: i s w d)
  case 0
  then show ?case by (subst retryWithBackoff_loop.simps) simp
next
  case (Suc m)
  then have lt: "i < n" and m: "m = nat (n - (i + 1))" by auto
  obtain r s' where op: "fn s = (r, s')" by (cases "fn s")
  from Suc.prems Suc.hyps(2) [symmetric] op
  have r: "\<exists>e. r = Inl e" and rest: "\<forall>r\<in>set (invocations fn s' m). \<exists>e. r = Inl e"
    by auto
  from r obtain e where e: "r = Inl e" ..
  from Suc.hyps(1) [OF m, of s' "min (d * 2) md" "w @ [d]"] rest m lt e op show ?case
    by (subst retryWithBackoff_loop.simps) simp
qed

text \<open>
  C7. For \<open>maxAttempts \<ge> 1\<close>, when every attempt rejects, \<open>retryWithDelay\<close> and
  \<open>retryWithBackoff\<close> reject with the generic \<^verbatim>\<open>new Error('Retry limit exceeded')\<close>
  and not with an error of the operation.
\<close>

theorem retry_limit_exceeded:
  assumes "1 \<le> maxAttempts"
    and "\<forall>r\<in>set (invocations fn s (nat maxAttempts)). \<exists>e. r = Inl e"
  shows "fst (retryWithDelay fn maxAttempts delay s) = Rejected (Error ''Retry limit exceeded'')
       \<and> fst (retryWithBackoff fn maxAttempts baseDelay maxDelay s)
           = Rejected (Error ''Retry limit exceeded'')
       \<and> (\<forall>e. fst (retryWithDelay fn maxAttempts delay s) \<noteq> Rejected (Thrown e))
       \<and> (\<forall>e. fst (retryWithBackoff fn maxAttempts baseDelay maxDelay s) \<noteq> Rejected (Thrown e))"
  using assms(2)
    retryWithDelay_loop_all_fail [of fn s maxAttempts 0 delay "[]"]
    retryWithBackoff_loop_all_fail [of fn s maxAttempts 0 maxDelay baseDelay "[]"]
  by (simp add: retryWithDelay_def retryWithBackoff_def)

theorem retry_limit_exceeded_witness:
  "(1::int) \<le> 2
   \<and> invocations failing 0 (nat 2) = [Inl ''Failed'', Inl ''Failed'']
   \<and> fst (retryWithDelay failing 2 100 0) = Rejected (Error ''Retry limit exceeded'')
   \<and> fst (retryWithBackoff failing 2 100 500 0) = Rejected (Error ''Retry limit exceeded'')"
proof -
  have h: "(1::int) \<le> 2" by simp
  have inv2: "invocations failing 0 (nat 2) = [Inl ''Failed'', Inl ''Failed'']"
    by (simp add: failing_def eval_nat_numeral)
  have all2: "\<forall>r\<in>set (invocations failing 0 (nat 2)). \<exists>e. r = Inl e"
    by (simp only: inv2) simp
  from retry_limit_exceeded [OF h all2, of 100 100 500] h inv2 show ?thesis by blast
qed

text \<open>
  C8. With \<open>baseDelay = 1000\<close> and \<open>maxDelay = 500\<close> the wait after the first failed
  attempt is \<open>1000\<close>: \<^verbatim>\<open>delay\<close> starts at \<^verbatim>\<open>baseDelay\<close> and \<^verbatim>\<open>Math.min\<close> is
  applied only after a wait. The specification's \<open>min (baseDelay * 2 ^ (k - 1)) maxDelay\<close>
  is \<open>500\<close> for \<open>k = 1\<close>.
\<close>

theorem backoff_first_wait_uncapped:
  "snd (snd (retryWithBackoff failing 1 1000 500 0)) = [1000]
   \<and> spec_backoff_wait 1000 500 1 = 500"
  by (simp add: retryWithBackoff_def retryWithBackoff_loop.simps failing_def spec_backoff_wait_def)

text \<open>
  When \<open>baseDelay \<le> maxDelay\<close> the waits of the failed attempts do follow the
  specification's formula.
\<close>

lemma retryWithBackoff_loop_waits:
  "\<forall>r\<in>set (invocations fn s (nat (n - i))). \<exists>e. r = Inl e \<Longrightarrow>
     snd (snd (retryWithBackoff_loop fn n md i d s w)) = w @ backoff_delays md d (nat (n - i))"
proof (induction "nat (n - i)" arbitrary: i s w d)
  case 0
  then show ?case by (subst retryWithBackoff_loop.simps) simp
next
  case (Suc m)
  then have lt: "i < n" and m: "m = nat (n - (i + 1))" by auto
  obtain r s' where op: "fn s = (r, s')" by (cases "fn s")
  from Suc.prems Suc.hyps(2) [symmetric] op
  have r: "\<exists>e. r = Inl e" and rest: "\<forall>r\<in>set (invocations fn s' m). \<exists>e. r = Inl e"
    by auto
  from r obtain e where e: "r = Inl e" ..
  from rest m have rest': "\<forall>r\<in>set (invocations fn s' (nat (n - (i + 1)))). \<exists>e. r = Inl e"
    by simp
  have "snd (snd (retryWithBackoff_loop fn n md i d s w))
        = snd (snd (retryWithBackoff_loop fn n md (i + 1) (min (d * 2) md) s' (w @ [d])))"
    using lt e op by (subst retryWithBackoff_loop.simps) simp
  also have "\<dots> = (w @ [d]) @ backoff_delays md (min (d * 2) md) m"
    using Suc.hyps(1) [OF m rest', of "min (d * 2) md" "w @ [d]"] m by simp
  also have "\<dots> = w @ backoff_delays md d (Suc m)" by simp
  finally show ?case using Suc.hyps(2) by simp
qed

lemma double_capped:
  fixes b m :: int
  assumes "b \<le> m"
  shows "min (min (b * 2 ^ j) m * 2) m = min (b * 2 ^ Suc j) m"
proof (cases "b * 2 ^ j \<le> m")
  case True
  then show ?thesis by (simp add: min_def mult.commute)
next
  case False
  have "0 < b"
  proof (rule ccontr)
    assume "\<not> 0 < b"
    then have "b \<le> 0" by simp
    from mult_left_mono_neg [OF _ this, of 1 "2 ^ j"] have "b * 2 ^ j \<le> b" by simp
    with assms False show False by simp
  qed
  with assms False show ?thesis by (simp add: min_def)
qed

lemma backoff_delays_closed:
  "b \<le> m \<Longrightarrow> backoff_delays m (min (b * 2 ^ j) m) k = map (\<lambda>i. min (b * 2 ^ (j + i)) m) [0..<k]"
proof (induction k arbitrary: j)
  case 0
  then show ?case by simp
next
  case (Suc k)
  have "backoff_delays m (min (b * 2 ^ j) m) (Suc k)
        = min (b * 2 ^ j) m # backoff_delays m (min (b * 2 ^ Suc j) m) k"
    by (simp only: backoff_delays.simps double_capped [OF Suc.prems])
  also have "\<dots> = min (b * 2 ^ j) m # map (\<lambda>i. min (b * 2 ^ (Suc j + i)) m) [0..<k]"
    by (simp only: Suc.IH [OF Suc.prems])
  also have "\<dots> = map (\<lambda>i. min (b * 2 ^ (j + i)) m) [0..<Suc k]"
    by (simp add: upt_conv_Cons map_Suc_upt [symmetric] del: upt_Suc)
  finally show ?case .
qed

lemma backoff_waits_when_capped:
  assumes "baseDelay \<le> maxDelay"
    and "\<forall>r\<in>set (invocations fn s (nat maxAttempts)). \<exists>e. r = Inl e"
    and "1 \<le> k" and "k \<le> nat maxAttempts"
  shows "snd (snd (retryWithBackoff fn maxAttempts baseDelay maxDelay s)) ! (k - 1)
           = spec_backoff_wait baseDelay maxDelay k"
proof -
  have w: "snd (snd (retryWithBackoff fn maxAttempts baseDelay maxDelay s))
        = backoff_delays maxDelay baseDelay (nat maxAttempts)"
    using retryWithBackoff_loop_waits [of fn s maxAttempts 0 maxDelay baseDelay "[]"] assms(2)
    by (simp add: retryWithBackoff_def)
  have b: "min (baseDelay * 2 ^ 0) maxDelay = baseDelay" using assms(1) by simp
  have "backoff_delays maxDelay baseDelay (nat maxAttempts)
             = map (\<lambda>i. min (baseDelay * 2 ^ (0 + i)) maxDelay) [0..<nat maxAttempts]"
    using backoff_delays_closed [OF assms(1), of 0 "nat maxAttempts"] by (simp only: b)
  moreover from assms(3,4) have "k - 1 < nat maxAttempts" by simp
  ultimately show ?thesis using w by (simp add: spec_backoff_wait_def)
qed

section \<open>Properties of memoizeAsync\<close>

declare decimal.simps [simp del]

lemma stringify_nat_2: "stringify_nat 2 = ''[2]''"
  by (simp add: stringify_nat_def decimal.simps)

lemma stringify_nat_3: "stringify_nat 3 = ''[3]''"
  by (simp add: stringify_nat_def decimal.simps)

lemma stringify_nat_12: "stringify_nat 12 = ''[12]''"
  by (simp add: stringify_nat_def decimal.simps)

lemma memoizeAsync_miss:
  "cache (stringify args) = None \<Longrightarrow> fn args s = (Returns p, s') \<Longrightarrow>
     memoizeAsync stringify fn args (cache, s) = (adopt p, (cache(stringify args \<mapsto> p), s'))"
  by (simp add: memoizeAsync_def cache_get_def)

lemma memoizeAsync_throw:
  "cache (stringify args) = None \<Longrightarrow> fn args s = (Throws e, s') \<Longrightarrow>
     memoizeAsync stringify fn args (cache, s) = (Rejected (Thrown e), (cache, s'))"
  by (simp add: memoizeAsync_def)

lemma memoizeAsync_hit:
  "cache (stringify args) = Some p \<Longrightarrow>
     memoizeAsync stringify fn args (cache, s) = (adopt p, (cache, s))"
  by (simp add: memoizeAsync_def cache_get_def)

lemma memoizeAsync_keeps:
  "fst st key = Some p \<Longrightarrow> fst (snd (memoizeAsync stringify fn args st)) key = Some p"
  by (cases st)
     (auto simp: memoizeAsync_def Let_def split: prod.splits invoked.splits)

lemma memo_calls_keeps:
  "fst st key = Some p \<Longrightarrow> fst (memo_calls stringify fn others st) key = Some p"
  by (induction others arbitrary: st) (auto simp: memoizeAsync_keeps)


text \<open>
  C9, as the code has it. For the first call for a key: when the invocation of the
  operation returns a promise that rejects with \<open>e\<close>, the call rejects with \<open>e\<close>, and
  after any further calls of the wrapper a call whose arguments serialize to the same key
  rejects with \<open>e\<close> and leaves the cache and the caller's state as they were (the
  operation is not invoked again, the rejected promise stays in the cache). When the
  invocation throws \<open>e\<close> before it returns a promise, the call rejects with \<open>e\<close> and
  the cache is left as it was: nothing is stored for the key.
\<close>

theorem memoize_rejection_cached:
  assumes "cache (stringify args) = None"
    and "stringify args' = stringify args"
  shows "(fst (fn args s) = Returns (Inl e) \<longrightarrow>
            fst (memoizeAsync stringify fn args (cache, s)) = Rejected (Thrown e)
            \<and> memoizeAsync stringify fn args'
                 (memo_calls stringify fn others (snd (memoizeAsync stringify fn args (cache, s))))
               = (Rejected (Thrown e),
                  memo_calls stringify fn others (snd (memoizeAsync stringify fn args (cache, s)))))
       \<and> (fst (fn args s) = Throws e \<longrightarrow>
            memoizeAsync stringify fn args (cache, s)
              = (Rejected (Thrown e), (cache, snd (fn args s))))"
proof (intro conjI impI)
  obtain r s' where op: "fn args s = (r, s')" by (cases "fn args s")
  {
    assume "fst (fn args s) = Returns (Inl e)"
    with op have op': "fn args s = (Returns (Inl e), s')" by simp
    note first = memoizeAsync_miss [of cache stringify args fn s "Inl e" s', OF assms(1) op']
    show "fst (memoizeAsync stringify fn args (cache, s)) = Rejected (Thrown e)"
      by (simp add: first adopt_def)
    let ?st = "memo_calls stringify fn others (snd (memoizeAsync stringify fn args (cache, s)))"
    have "fst (snd (memoizeAsync stringify fn args (cache, s))) (stringify args) = Some (Inl e)"
      by (simp add: first)
    then have "fst ?st (stringify args') = Some (Inl e)"
      by (simp only: assms(2) memo_calls_keeps)
    then have "memoizeAsync stringify fn args' (fst ?st, snd ?st)
               = (adopt (Inl e), (fst ?st, snd ?st))"
      by (rule memoizeAsync_hit)
    then show "memoizeAsync stringify fn args' ?st = (Rejected (Thrown e), ?st)"
      by (simp add: adopt_def)
  }
  {
    assume "fst (fn args s) = Throws e"
    with op have op': "fn args s = (Throws e, s')" by simp
    from memoizeAsync_throw [of cache stringify args fn s e s', OF assms(1) op'] op
    show "memoizeAsync stringify fn args (cache, s) = (Rejected (Thrown e), (cache, snd (fn args s)))"
      by simp
  }
qed

theorem memoize_rejection_cached_witness:
  "new_cache (stringify_nat 2) = None
   \<and> stringify_nat 2 = stringify_nat 2
   \<and> fst (returning (refusing 2) 0) = Returns (Inl ''Failed'')
   \<and> fst (memoizeAsync stringify_nat (\<lambda>x. returning (refusing x)) 2 (new_cache, 0))
        = Rejected (Thrown ''Failed'')
   \<and> snd (memo_calls stringify_nat (\<lambda>x. returning (refusing x)) [3, 2]
            (snd (memoizeAsync stringify_nat (\<lambda>x. returning (refusing x)) 2 (new_cache, 0)))) = 2
   \<and> memoizeAsync stringify_nat (\<lambda>x. returning (refusing x)) 2
        (memo_calls stringify_nat (\<lambda>x. returning (refusing x)) [3, 2]
           (snd (memoizeAsync stringify_nat (\<lambda>x. returning (refusing x)) 2 (new_cache, 0))))
      = (Rejected (Thrown ''Failed''),
         memo_calls stringify_nat (\<lambda>x. returning (refusing x)) [3, 2]
           (snd (memoizeAsync stringify_nat (\<lambda>x. returning (refusing x)) 2 (new_cache, 0))))
   \<and> fst (throwing 2 0) = Throws ''Failed''
   \<and> memoizeAsync stringify_nat throwing 2 (new_cache, 0)
      = (Rejected (Thrown ''Failed''), (new_cache, snd (throwing 2 0)))"
proof -
  have h1: "new_cache (stringify_nat 2) = None" by (simp add: new_cache_def)
  have h2: "stringify_nat 2 = stringify_nat 2" ..
  have r: "fst (returning (refusing 2) 0) = Returns (Inl ''Failed'')"
    by (simp add: returning_def refusing_def)
  have t: "fst (throwing 2 0) = Throws ''Failed''" by (simp add: throwing_def)
  have n: "snd (memo_calls stringify_nat (\<lambda>x. returning (refusing x)) [3, 2]
            (snd (memoizeAsync stringify_nat (\<lambda>x. returning (refusing x)) 2 (new_cache, 0)))) = 2"
    by (simp add: memoizeAsync_def cache_get_def new_cache_def refusing_def returning_def
          stringify_nat_2 stringify_nat_3 adopt_def)
  note a = memoize_rejection_cached
    [where cache = "new_cache :: (string, nat) cache" and stringify = stringify_nat
       and args = 2 and args' = 2 and fn = "\<lambda>x. returning (refusing x)" and s = 0
       and e = "''Failed''" and others = "[3, 2]", OF h1 h2]
  note b = memoize_rejection_cached
    [where cache = "new_cache :: (string, nat) cache" and stringify = stringify_nat
       and args = 2 and args' = 2 and fn = throwing and s = 0
       and e = "''Failed''" and others = "[]", OF h1 h2]
  from a r have a1: "fst (memoizeAsync stringify_nat (\<lambda>x. returning (refusing x)) 2 (new_cache, 0))
        = Rejected (Thrown ''Failed'')"
    and a2: "memoizeAsync stringify_nat (\<lambda>x. returning (refusing x)) 2
        (memo_calls stringify_nat (\<lambda>x. returning (refusing x)) [3, 2]
           (snd (memoizeAsync stringify_nat (\<lambda>x. returning (refusing x)) 2 (new_cache, 0))))
      = (Rejected (Thrown ''Failed''),
         memo_calls stringify_nat (\<lambda>x. returning (refusing x)) [3, 2]
           (snd (memoizeAsync stringify_nat (\<lambda>x. returning (refusing x)) 2 (new_cache, 0))))"
    by blast+
  from b t have b1: "memoizeAsync stringify_nat throwing 2 (new_cache, 0)
      = (Rejected (Thrown ''Failed''), (new_cache, snd (throwing 2 0)))" by blast
  from h1 h2 r a1 n a2 t b1 show ?thesis by blast
qed

text \<open>
  C9 as the specification words it does not hold for every operation: an operation that
  throws before it returns a promise fails the first call, and the second call with the
  same arguments invokes it again (the counter is \<open>2\<close>), for nothing was stored.
\<close>

theorem memoize_throw_not_cached_counterexample:
  "fst (memoizeAsync stringify_nat throwing 2 (new_cache, 0)) = Rejected (Thrown ''Failed'')
   \<and> memoizeAsync stringify_nat throwing 2
        (snd (memoizeAsync stringify_nat throwing 2 (new_cache, 0)))
      = (Rejected (Thrown ''Failed''), (new_cache, 2))"
  by (simp add: memoizeAsync_def new_cache_def throwing_def)

section \<open>Properties of circuitBreaker and batch\<close>

lemma circuitBreaker_passes_on:
  "circuitBreaker asyncOperation maxFailures cooldownPeriod s
     = (adopt (fst (asyncOperation s)), snd (asyncOperation s))"
  by (cases "asyncOperation s")
     (simp add: circuitBreaker_def circuit_attempt_def adopt_def Let_def split: sum.splits)

text \<open>
  C1. Four calls \<^verbatim>\<open>circuitBreaker(op, 3, 1000)\<close> in a row with an operation that
  always rejects: each call invokes the operation (the counter is \<open>4\<close> at the end) and
  rejects with the operation's error, the fourth as well. \<^verbatim>\<open>failures\<close> and
  \<^verbatim>\<open>circuitOpen\<close> are created anew by every call, so no call sees the failures of
  an earlier one and none rejects with \<^verbatim>\<open>Circuit is open\<close>.
\<close>

theorem circuit_never_opens:
  "repeatedly 4 (circuitBreaker failing 3 1000) 0
     = ([Rejected (Thrown ''Failed''), Rejected (Thrown ''Failed''),
         Rejected (Thrown ''Failed''), Rejected (Thrown ''Failed'')], 4)"
  by (simp add: eval_nat_numeral circuitBreaker_def circuit_attempt_def failing_def)

text \<open>
  C4. One operation that fulfils with the array \<^verbatim>\<open>['a', 'b']\<close>, in batches of one:
  \<open>batch\<close> fulfils with the two elements \<^verbatim>\<open>['a', 'b']\<close> and not with the one result
  \<^verbatim>\<open>[['a', 'b']]\<close>. The \<^verbatim>\<open>batchResults.flat()\<close> of every batch splices the results
  that are arrays.
\<close>

theorem batch_flattens_results:
  "batch [resolving 0 (Arr [Str ''a'', Str ''b''])] 1 0 = Some (Resolved [Str ''a'', Str ''b''], 1)"
  by (simp add: batch_def batches_loop.simps slice_def promise_all_def rejections_def
        fulfilments_def then_promise_def flat_def resolving_def List.map_filter_simps)

lemma batch_example:
  "batch [resolving t1 (Str ''a''), resolving t2 (Str ''b''), resolving t3 (Str ''c'')] 2 0
     = Some (Resolved [Str ''a'', Str ''b'', Str ''c''], 3)"
  by (simp add: batch_def batches_loop.simps slice_def promise_all_def rejections_def
        fulfilments_def then_promise_def flat_def resolving_def List.map_filter_simps)

lemma invoke_all_append:
  "invoke_all (xs @ ys) s =
     (case invoke_all xs s of (ps, s1) \<Rightarrow>
        (case invoke_all ys s1 of (qs, s2) \<Rightarrow> (ps @ qs, s2)))"
  by (induction xs arbitrary: s) (auto split: prod.splits)

lemma rejections_append: "rejections (ps @ qs) = rejections ps @ rejections qs"
  by (simp add: rejections_def List.map_filter_def)

lemma fulfilments_append: "fulfilments (ps @ qs) = fulfilments ps @ fulfilments qs"
  by (simp add: fulfilments_def List.map_filter_def)

lemma flat_append: "flat (xs @ ys) = flat xs @ flat ys"
  by (simp add: flat_def)

lemma promise_all_fulfilled:
  "rejections ps = [] \<Longrightarrow> promise_all ps = (fold max (map fst ps) 0, Inr (fulfilments ps))"
  by (simp add: promise_all_def)

lemma start_batches_fulfilled:
  "invoke_all (concat batches) s = (ps, s') \<Longrightarrow> rejections ps = [] \<Longrightarrow>
     \<exists>qs. start_batches batches s = (qs, s') \<and> rejections qs = []
          \<and> flat (fulfilments qs) = flat (fulfilments ps)"
proof (induction batches arbitrary: s ps s')
  case Nil
  then show ?case by (auto simp: rejections_def fulfilments_def List.map_filter_simps)
next
  case (Cons b bs)
  obtain p1 s1 where b: "invoke_all b s = (p1, s1)" by (cases "invoke_all b s")
  obtain p2 s2 where bs: "invoke_all (concat bs) s1 = (p2, s2)"
    by (cases "invoke_all (concat bs) s1")
  from Cons.prems(1) b bs have ps: "ps = p1 @ p2" and s': "s' = s2"
    by (simp_all add: invoke_all_append)
  from Cons.prems(2) ps have r1: "rejections p1 = []" and r2: "rejections p2 = []"
    by (simp_all add: rejections_append)
  from Cons.IH [OF bs r2] obtain qs where
    qs: "start_batches bs s1 = (qs, s2)" "rejections qs = []"
        "flat (fulfilments qs) = flat (fulfilments p2)" by blast
  let ?q = "then_promise (promise_all p1) (\<lambda>batchResults. Arr (flat batchResults))"
  have q: "?q = (fold max (map fst p1) 0, Inr (Arr (flat (fulfilments p1))))"
    by (simp add: promise_all_fulfilled [OF r1] then_promise_def)
  have start: "start_batches (b # bs) s = (?q # qs, s')"
    by (simp add: b qs(1) s')
  have rej: "rejections (?q # qs) = []"
    using qs(2) by (simp add: q rejections_def List.map_filter_simps)
  have "fulfilments (?q # qs) = Arr (flat (fulfilments p1)) # fulfilments qs"
    by (simp add: q fulfilments_def List.map_filter_simps)
  then have "flat (fulfilments (?q # qs)) = flat (fulfilments p1) @ flat (fulfilments qs)"
    by (simp add: flat_def)
  with qs(3) have fl: "flat (fulfilments (?q # qs)) = flat (fulfilments ps)"
    by (simp add: ps fulfilments_append flat_append)
  from start rej fl show ?case by blast
qed

lemma slice_chunk:
  "0 \<le> i \<Longrightarrow> i < int (length xs) \<Longrightarrow> 1 \<le> n \<Longrightarrow>
     slice xs i (i + n) = take (nat n) (drop (nat i) xs)"
  by (auto simp: slice_def Let_def min_def)

lemma batches_loop_chunks:
  "0 \<le> i \<Longrightarrow> 1 \<le> batchSize \<Longrightarrow>
     \<exists>bt. batches_loop fns batchSize i acc = Some (acc @ bt)
        \<and> concat bt = drop (nat i) fns
        \<and> (\<forall>b\<in>set bt. b \<noteq> [] \<and> int (length b) \<le> batchSize)"
proof (induction "length fns - nat i" arbitrary: i acc rule: less_induct)
  case less
  show ?case
  proof (cases "i < int (length fns)")
    case False
    with less.prems show ?thesis
      by (subst batches_loop.simps) simp
  next
    case True
    let ?b = "take (nat batchSize) (drop (nat i) fns)"
    have sl: "slice fns i (i + batchSize) = ?b"
      by (rule slice_chunk [OF less.prems(1) True less.prems(2)])
    have dec: "length fns - nat (i + batchSize) < length fns - nat i"
      using less.prems True by auto
    have nn: "0 \<le> i + batchSize" using less.prems by simp
    from less.hyps [OF dec nn less.prems(2), of "acc @ [?b]"] obtain bt where
      bt: "batches_loop fns batchSize (i + batchSize) (acc @ [?b]) = Some ((acc @ [?b]) @ bt)"
          "concat bt = drop (nat (i + batchSize)) fns"
          "\<forall>b\<in>set bt. b \<noteq> [] \<and> int (length b) \<le> batchSize" by blast
    have loop: "batches_loop fns batchSize i acc = Some (acc @ (?b # bt))"
      using True bt(1) by (subst batches_loop.simps) (simp add: sl)
    have "nat (i + batchSize) = nat batchSize + nat i"
      using less.prems by (simp add: nat_add_distrib)
    then have "drop (nat (i + batchSize)) fns = drop (nat batchSize) (drop (nat i) fns)"
      by (simp only: drop_drop)
    with bt(2) have "concat bt = drop (nat batchSize) (drop (nat i) fns)" by simp
    then have cc: "concat (?b # bt) = drop (nat i) fns"
      by (simp only: concat.simps append_take_drop_id)
    have ne: "?b \<noteq> []" using less.prems True by auto
    have len: "int (length ?b) \<le> batchSize" using less.prems by auto
    from loop cc ne len bt(3) show ?thesis by (intro exI [of _ "?b # bt"]) simp
  qed
qed

lemma batch_all_fulfilled:
  assumes "1 \<le> batchSize"
    and "invoke_all fns s = (ps, s')"
    and "rejections ps = []"
  shows "batch fns batchSize s = Some (Resolved (flat (fulfilments ps)), s')"
proof -
  from batches_loop_chunks [of 0 batchSize fns "[]"] assms(1) obtain bt where
    bt: "batches_loop fns batchSize 0 [] = Some bt" "concat bt = fns" by auto
  from start_batches_fulfilled [of bt s ps s'] assms(2,3) bt(2) obtain qs where
    qs: "start_batches bt s = (qs, s')" "rejections qs = []"
        "flat (fulfilments qs) = flat (fulfilments ps)" by auto
  show ?thesis
    by (simp add: batch_def bt(1) qs(1) promise_all_fulfilled [OF qs(2)] qs(3))
qed

lemma flat_no_arrays: "\<forall>v\<in>set vs. \<forall>ys. v \<noteq> Arr ys \<Longrightarrow> flat vs = vs"
  by (induction vs) (auto simp: flat_def split: jsval.splits)

section \<open>Properties of debounceAsync\<close>

subsection \<open>The fields after each operation\<close>

lemma call_fields:
  "promises (snd (debounced_call delay a st)) = promises st @ [Pending]"
  "awaiting (snd (debounced_call delay a st)) = awaiting st"
  "caller (snd (debounced_call delay a st)) = caller st"
  "timeouts (snd (debounced_call delay a st)) =
     (case timer st of Some h \<Rightarrow> filter (\<lambda>t. t_handle t \<noteq> h) (timeouts st) | None \<Rightarrow> timeouts st)
     @ [\<lparr>t_handle = next_handle st, t_due = clock st + delay, t_args = a,
         t_promise = length (promises st)\<rparr>]"
  by (simp_all add: debounced_call_def clearTimeout_def Let_def split: option.splits)

lemma fire_fields:
  "promises (fire fn t st) = promises st"
  "timeouts (fire fn t st) = timeouts st"
  "map fst (awaiting (fire fn t st)) = map fst (awaiting st) @ [t_promise t]"
  "set (awaiting (fire fn t st)) = insert (t_promise t, fst (fn (t_args t) (caller st))) (set (awaiting st))"
  by (simp_all add: fire_def split: prod.splits)

lemma fold_fire_fields:
  "promises (fold (fire fn) ts st) = promises st"
  "timeouts (fold (fire fn) ts st) = timeouts st"
  "map fst (awaiting (fold (fire fn) ts st)) = map fst (awaiting st) @ map t_promise ts"
  by (induction ts arbitrary: st) (simp_all add: fire_fields)

lemma fold_fire_awaiting:
  "(q, r) \<in> set (awaiting (fold (fire fn) ts st)) \<Longrightarrow>
     (q, r) \<in> set (awaiting st) \<or> q \<in> t_promise ` set ts"
proof (induction ts arbitrary: st)
  case Nil
  then show ?case by simp
next
  case (Cons t ts)
  from Cons.prems have "(q, r) \<in> set (awaiting (fold (fire fn) ts (fire fn t st)))" by simp
  from Cons.IH [OF this] show ?case by (auto simp: fire_fields)
qed

lemma elapse_fields:
  "promises (elapse fn d st) = promises st"
  "timeouts (elapse fn d st) = filter (\<lambda>t. \<not> t_due t \<le> clock st + d) (timeouts st)"
  "map fst (awaiting (elapse fn d st)) =
     map fst (awaiting st) @ map t_promise (filter (\<lambda>t. t_due t \<le> clock st + d) (timeouts st))"
  by (simp_all add: elapse_def Let_def fold_fire_fields)

lemma elapse_awaiting:
  "(q, r) \<in> set (awaiting (elapse fn d st)) \<Longrightarrow>
     (q, r) \<in> set (awaiting st) \<or> q \<in> t_promise ` set (timeouts st)"
  by (auto simp: elapse_def Let_def dest!: fold_fire_awaiting)

lemma find_fst:
  "find (\<lambda>(q, r). q = p) xs = Some (q, r) \<Longrightarrow> q = p \<and> (p, r) \<in> set xs"
  by (induction xs) (auto split: if_splits)

lemma settle_fields:
  "timeouts (settle p st) = timeouts st"
  "length (promises (settle p st)) = length (promises st)"
  "set (awaiting (settle p st)) \<subseteq> set (awaiting st)"
  by (auto simp: settle_def Let_def resolve_def split: option.splits sum.splits
        dest: set_remove1_subset [THEN subsetD])

lemma settle_other:
  "(\<forall>v. (p, Inr v) \<notin> set (awaiting st)) \<Longrightarrow> promises (settle q st) ! p = promises st ! p"
  by (auto simp: settle_def Let_def resolve_def nth_list_update
        split: option.splits sum.splits dest!: find_fst)

subsection \<open>An abandoned promise stays pending\<close>

lemma abandoned_step: "abandoned p st \<Longrightarrow> abandoned p (step fn delay e st)"
proof (cases e)
  case (Call a)
  assume "abandoned p st"
  then show ?thesis
    unfolding abandoned_def Call
    by (auto simp: call_fields nth_append split: option.splits)
next
  case (Elapse d)
  assume "abandoned p st"
  then show ?thesis
    unfolding abandoned_def Elapse
    by (auto simp: elapse_fields dest!: elapse_awaiting)
next
  case (Settle q)
  assume a: "abandoned p st"
  then have "promises (settle q st) ! p = promises st ! p"
    unfolding abandoned_def by (intro settle_other) simp
  with a show ?thesis
    unfolding abandoned_def Settle
    by (auto simp: settle_fields dest: settle_fields(3) [THEN subsetD])
qed

lemma run_append: "run fn delay (evs @ evs') st = run fn delay evs' (run fn delay evs st)"
  by (simp add: run_def)

lemma abandoned_run: "abandoned p st \<Longrightarrow> abandoned p (run fn delay evs st)"
  by (induction evs arbitrary: st) (simp_all add: run_def abandoned_step)

lemma abandoned_pending: "abandoned p st \<Longrightarrow> promises (run fn delay evs st) ! p = Pending"
  using abandoned_run [of p st fn delay evs] by (simp add: abandoned_def)

subsection \<open>No promise is rejected\<close>

lemma settle_promise:
  "promises (settle q st) ! p = promises st ! p
   \<or> (\<exists>v. promises (settle q st) ! p = Settled (Resolved v))"
  by (auto simp: settle_def Let_def resolve_def nth_list_update split: option.splits sum.splits)

lemma unrejected_step: "unrejected st \<Longrightarrow> unrejected (step fn delay e st)"
proof (cases e)
  case (Call a)
  assume "unrejected st"
  then show ?thesis
    unfolding unrejected_def Call by (auto simp: call_fields nth_append)
next
  case (Elapse d)
  assume "unrejected st"
  then show ?thesis
    unfolding unrejected_def Elapse by (simp add: elapse_fields)
next
  case (Settle q)
  assume u: "unrejected st"
  show ?thesis
    unfolding unrejected_def Settle step.simps settle_fields
  proof (intro allI impI)
    fix p e
    assume "p < length (promises st)"
    with u have "promises st ! p \<noteq> Settled (Rejected e)" by (simp add: unrejected_def)
    with settle_promise [of q st p] show "promises (settle q st) ! p \<noteq> Settled (Rejected e)"
      by auto
  qed
qed

lemma unrejected_run: "unrejected st \<Longrightarrow> unrejected (run fn delay evs st)"
  by (induction evs arbitrary: st) (simp_all add: run_def unrejected_step)

subsection \<open>Every scheduled or suspended callback has its own pending promise\<close>

lemma wf_call: "wf st \<Longrightarrow> wf (snd (debounced_call delay a st))"
proof -
  assume w: "wf st"
  define F where
    "F = (case timer st of Some h \<Rightarrow> filter (\<lambda>t. t_handle t \<noteq> h) (timeouts st) | None \<Rightarrow> timeouts st)"
  have sub: "set F \<subseteq> set (timeouts st)" by (auto simp: F_def split: option.splits)
  have dist: "distinct (map t_promise F)"
    using w by (auto simp: F_def wf_def distinct_map_filter split: option.splits)
  have ts: "timeouts (snd (debounced_call delay a st)) =
      F @ [\<lparr>t_handle = next_handle st, t_due = clock st + delay, t_args = a,
            t_promise = length (promises st)\<rparr>]"
    by (simp add: call_fields F_def)
  from w have fresh: "length (promises st) \<notin> t_promise ` set (timeouts st) \<union> fst ` set (awaiting st)"
    by (auto simp: wf_def)
  from w have "t_promise ` set (timeouts st) \<inter> fst ` set (awaiting st) = {}"
    by (simp add: wf_def)
  with sub have disj: "t_promise ` set F \<inter> fst ` set (awaiting st) = {}" by blast
  from w sub have pendF: "t_promise x < length (promises st) \<and> promises st ! t_promise x = Pending"
    if "x \<in> set F" for x
    using that unfolding wf_def by blast
  from w have pendA: "a < length (promises st) \<and> promises st ! a = Pending"
    if "(a, b) \<in> set (awaiting st)" for a b
    using that unfolding wf_def by force
  from w have da: "distinct (map fst (awaiting st))" by (simp add: wf_def)
  from pendF have freshF: "length (promises st) \<notin> t_promise ` set F" by fastforce
  show ?thesis
    unfolding wf_def ts call_fields(1,2)
  proof (intro conjI ballI)
    show "distinct (map t_promise (F @ [\<lparr>t_handle = next_handle st, t_due = clock st + delay,
        t_args = a, t_promise = length (promises st)\<rparr>]))"
      using dist freshF by simp
    show "distinct (map fst (awaiting st))" by (rule da)
    show "t_promise ` set (F @ [\<lparr>t_handle = next_handle st, t_due = clock st + delay,
        t_args = a, t_promise = length (promises st)\<rparr>]) \<inter> fst ` set (awaiting st) = {}"
      using disj fresh by auto
  next
    fix q
    assume "q \<in> t_promise ` set (F @ [\<lparr>t_handle = next_handle st, t_due = clock st + delay,
        t_args = a, t_promise = length (promises st)\<rparr>]) \<union> fst ` set (awaiting st)"
    then consider x where "x \<in> set F" "q = t_promise x" | "q = length (promises st)"
      | b where "(q, b) \<in> set (awaiting st)" by auto
    then have "q < length (promises st) \<and> promises st ! q = Pending \<or> q = length (promises st)"
      using pendF pendA by cases auto
    then show "q < length (promises st @ [Pending])" by auto
  next
    fix q
    assume "q \<in> t_promise ` set (F @ [\<lparr>t_handle = next_handle st, t_due = clock st + delay,
        t_args = a, t_promise = length (promises st)\<rparr>]) \<union> fst ` set (awaiting st)"
    then consider x where "x \<in> set F" "q = t_promise x" | "q = length (promises st)"
      | b where "(q, b) \<in> set (awaiting st)" by auto
    then have "q < length (promises st) \<and> promises st ! q = Pending \<or> q = length (promises st)"
      using pendF pendA by cases auto
    then show "(promises st @ [Pending]) ! q = Pending" by (auto simp: nth_append)
  qed
qed

lemma distinct_map_split:
  "distinct (map f xs) \<Longrightarrow> f ` set (filter P xs) \<inter> f ` set (filter (\<lambda>x. \<not> P x) xs) = {}"
  by (auto simp: distinct_map inj_on_def)

lemma wf_elapse: "wf st \<Longrightarrow> wf (elapse fn d st)"
proof -
  assume w: "wf st"
  let ?due = "\<lambda>t. t_due t \<le> clock st + d"
  have aw: "fst ` set (awaiting (elapse fn d st)) =
      fst ` set (awaiting st) \<union> t_promise ` set (filter ?due (timeouts st))"
    using elapse_fields(3) [of fn d st, THEN arg_cong, of set] by simp
  have d1: "distinct (map t_promise (filter (\<lambda>t. \<not> ?due t) (timeouts st)))"
    using w by (simp add: wf_def distinct_map_filter)
  have d2: "distinct (map fst (awaiting (elapse fn d st)))"
    using w by (auto simp: elapse_fields wf_def distinct_map_filter)
  from w have "distinct (map t_promise (timeouts st))" by (simp add: wf_def)
  from distinct_map_split [OF this, of ?due]
  have d3: "t_promise ` set (filter (\<lambda>t. \<not> ?due t) (timeouts st))
      \<inter> fst ` set (awaiting (elapse fn d st)) = {}"
    using w unfolding aw by (auto simp: wf_def)
  have d4: "\<forall>q\<in>t_promise ` set (filter (\<lambda>t. \<not> ?due t) (timeouts st))
      \<union> fst ` set (awaiting (elapse fn d st)).
        q < length (promises st) \<and> promises st ! q = Pending"
    using w unfolding aw by (auto simp: wf_def)
  from d1 d2 d3 d4 show ?thesis
    unfolding wf_def elapse_fields(1,2) by blast
qed

lemma distinct_fst_remove1:
  "distinct (map fst xs) \<Longrightarrow> distinct (map fst (remove1 x xs))"
  by (induction xs) (auto dest: set_remove1_subset [THEN subsetD])

lemma fst_notin_remove1:
  "distinct (map fst xs) \<Longrightarrow> (p, r) \<in> set xs \<Longrightarrow> p \<notin> fst ` set (remove1 (p, r) xs)"
  by (induction xs) (auto simp: rev_image_eqI)

lemma wf_settle: "wf st \<Longrightarrow> wf (settle p st)"
proof (cases "find (\<lambda>(q, r). q = p) (awaiting st)")
  case None
  assume "wf st"
  with None show ?thesis by (simp add: settle_def)
next
  case (Some x)
  assume w: "wf st"
  obtain q r where x: "x = (q, r)" by (cases x)
  with Some have q: "q = p" and mem: "(p, r) \<in> set (awaiting st)"
    by (auto dest: find_fst)
  let ?aw = "remove1 (p, r) (awaiting st)"
  have found: "find (\<lambda>(q, r). q = p) (awaiting st) = Some (p, r)"
    using Some x q by simp
  have aw: "awaiting (settle p st) = ?aw"
    by (cases r) (simp_all add: settle_def found Let_def)
  have ts: "timeouts (settle p st) = timeouts st" by (rule settle_fields)
  have len: "length (promises (settle p st)) = length (promises st)" by (rule settle_fields)
  have same: "promises (settle p st) ! k = promises st ! k" if "k \<noteq> p" for k
    using that by (cases r) (simp_all add: settle_def found resolve_def Let_def)
  from w have dist: "distinct (map fst (awaiting st))"
    and dts: "distinct (map t_promise (timeouts st))"
    and disj: "t_promise ` set (timeouts st) \<inter> fst ` set (awaiting st) = {}"
    and pend: "\<forall>k\<in>t_promise ` set (timeouts st) \<union> fst ` set (awaiting st).
        k < length (promises st) \<and> promises st ! k = Pending"
    by (simp_all add: wf_def)
  have sub: "fst ` set ?aw \<subseteq> fst ` set (awaiting st)"
    by (rule image_mono) (rule set_remove1_subset)
  have notp: "p \<notin> fst ` set ?aw" by (rule fst_notin_remove1 [OF dist mem])
  from mem have "p \<in> fst ` set (awaiting st)" by (rule image_eqI [rotated]) simp
  with disj have notp': "p \<notin> t_promise ` set (timeouts st)" by blast
  have d2: "distinct (map fst ?aw)" by (rule distinct_fst_remove1 [OF dist])
  from disj sub have d3: "t_promise ` set (timeouts st) \<inter> fst ` set ?aw = {}" by blast
  have d4: "\<forall>k\<in>t_promise ` set (timeouts st) \<union> fst ` set ?aw.
        k < length (promises (settle p st)) \<and> promises (settle p st) ! k = Pending"
  proof
    fix k
    assume k: "k \<in> t_promise ` set (timeouts st) \<union> fst ` set ?aw"
    with notp notp' have "k \<noteq> p" by blast
    moreover from k sub have "k \<in> t_promise ` set (timeouts st) \<union> fst ` set (awaiting st)"
      by blast
    ultimately show "k < length (promises (settle p st)) \<and> promises (settle p st) ! k = Pending"
      using pend by (simp add: same len)
  qed
  show ?thesis
    unfolding wf_def aw ts using dts d2 d3 d4 by blast
qed

lemma wf_step: "wf st \<Longrightarrow> wf (step fn delay e st)"
  by (cases e) (simp_all add: wf_call wf_elapse wf_settle)

lemma wf_run: "wf st \<Longrightarrow> wf (run fn delay evs st)"
  by (induction evs arbitrary: st) (simp_all add: run_def wf_step)

lemma wf_init: "wf (debounceAsync s)"
  by (simp add: wf_def debounceAsync_def)

lemma unrejected_init: "unrejected (debounceAsync s)"
  by (simp add: unrejected_def debounceAsync_def)

lemma failed_abandoned:
  "wf st \<Longrightarrow> (p, Inl e) \<in> set (awaiting st) \<Longrightarrow> abandoned p st"
  unfolding wf_def abandoned_def
  by (force dest: eq_key_imp_eq_value)

text \<open>
  C10. Whatever happens to a debounced wrapper, none of the promises it has returned is
  rejected; and once the operation invoked for a call has rejected (the call's callback
  is suspended on that rejection), the promise of that call is pending in every later
  state: the error never reaches the caller.
\<close>

theorem debounce_never_rejects:
  "(\<forall>q e'. q < length (promises (run fn delay evs (debounceAsync s))) \<longrightarrow>
       promises (run fn delay evs (debounceAsync s)) ! q \<noteq> Settled (Rejected e'))
   \<and> ((p, Inl e) \<in> set (awaiting (run fn delay evs (debounceAsync s))) \<longrightarrow>
        (\<forall>evs'. promises (run fn delay (evs @ evs') (debounceAsync s)) ! p = Pending))"
proof -
  let ?st = "run fn delay evs (debounceAsync s)"
  have "unrejected ?st" by (rule unrejected_run [OF unrejected_init])
  then have a: "\<forall>q e'. q < length (promises ?st) \<longrightarrow> promises ?st ! q \<noteq> Settled (Rejected e')"
    by (simp add: unrejected_def)
  have w: "wf ?st" by (rule wf_run [OF wf_init])
  have b: "(p, Inl e) \<in> set (awaiting ?st) \<longrightarrow>
        (\<forall>evs'. promises (run fn delay (evs @ evs') (debounceAsync s)) ! p = Pending)"
    by (auto simp: run_append dest!: failed_abandoned [OF w] intro: abandoned_pending)
  from a b show ?thesis ..
qed

theorem debounce_never_rejects_witness:
  "(0, Inl ''Failed'') \<in> set (awaiting (run broken 100 [Call (), Elapse 100] (debounceAsync 0)))
   \<and> promises (run broken 100 ([Call (), Elapse 100] @ [Settle 0, Call (), Elapse 500])
        (debounceAsync 0)) ! 0 = Pending
   \<and> length (promises (run broken 100 [Call (), Elapse 100] (debounceAsync 0))) = 1"
proof -
  have h: "(0, Inl ''Failed'') \<in> set (awaiting (run broken 100 [Call (), Elapse 100] (debounceAsync 0)))"
    by (simp add: run_def debounceAsync_def debounced_call_def elapse_def fire_def broken_def Let_def)
  have l: "length (promises (run broken 100 [Call (), Elapse 100] (debounceAsync 0))) = 1"
    by (simp add: run_def debounceAsync_def debounced_call_def elapse_def fire_def broken_def Let_def)
  from debounce_never_rejects [of broken 100 "[Call (), Elapse 100]" 0 0 "''Failed''"] h
  have "promises (run broken 100 ([Call (), Elapse 100] @ [Settle 0, Call (), Elapse 500])
        (debounceAsync 0)) ! 0 = Pending" by blast
  with h l show ?thesis by blast
qed

subsection \<open>A burst of calls\<close>

lemma burst_snoc: "burst a (gaps @ [(g, b)]) = burst a gaps @ [Elapse g, Call b]"
  by (simp add: burst_def)

lemma run_Cons: "run fn delay (e # evs) st = run fn delay evs (step fn delay e st)"
  by (simp add: run_def)

lemma run_burst:
  assumes "timeouts st0 = []" and "\<forall>(g, b)\<in>set gaps. g < delay"
  shows "run fn delay (burst a gaps) st0 =
     st0\<lparr>clock := clock st0 + sum_list (map fst gaps),
         timer := Some (next_handle st0 + length gaps),
         timeouts := [\<lparr>t_handle = next_handle st0 + length gaps,
                       t_due = clock st0 + sum_list (map fst gaps) + delay,
                       t_args = last (a # map snd gaps),
                       t_promise = length (promises st0) + length gaps\<rparr>],
         next_handle := Suc (next_handle st0 + length gaps),
         promises := promises st0 @ replicate (Suc (length gaps)) Pending\<rparr>"
  using assms(2)
proof (induction gaps rule: rev_induct)
  case Nil
  show ?case
    by (simp add: burst_def run_def debounced_call_def clearTimeout_def Let_def assms(1)
          split: option.splits)
next
  case (snoc x gaps)
  obtain g b where x: "x = (g, b)" by (cases x)
  from snoc.prems x have g: "g < delay" and rest: "\<forall>(g, b)\<in>set gaps. g < delay" by auto
  note IH = snoc.IH [OF rest]
  have "run fn delay (burst a (gaps @ [x])) st0
        = step fn delay (Call b) (step fn delay (Elapse g) (run fn delay (burst a gaps) st0))"
    by (simp add: x burst_snoc run_def)
  also have "\<dots> = st0\<lparr>clock := clock st0 + sum_list (map fst (gaps @ [x])),
         timer := Some (next_handle st0 + length (gaps @ [x])),
         timeouts := [\<lparr>t_handle = next_handle st0 + length (gaps @ [x]),
                       t_due = clock st0 + sum_list (map fst (gaps @ [x])) + delay,
                       t_args = last (a # map snd (gaps @ [x])),
                       t_promise = length (promises st0) + length (gaps @ [x])\<rparr>],
         next_handle := Suc (next_handle st0 + length (gaps @ [x])),
         promises := promises st0 @ replicate (Suc (length (gaps @ [x]))) Pending\<rparr>"
    using g
    by (simp add: IH x elapse_def debounced_call_def clearTimeout_def Let_def
          replicate_append_same)
  finally show ?case .
qed

lemma run_burst_elapse:
  assumes "timeouts st0 = []" and "awaiting st0 = []" and "\<forall>(g, b)\<in>set gaps. g < delay"
    and "delay \<le> d"
  shows "run fn delay (burst a gaps @ [Elapse d]) st0 =
     st0\<lparr>clock := clock st0 + sum_list (map fst gaps) + d,
         timer := Some (next_handle st0 + length gaps),
         timeouts := [],
         next_handle := Suc (next_handle st0 + length gaps),
         promises := promises st0 @ replicate (Suc (length gaps)) Pending,
         awaiting := [(length (promises st0) + length gaps,
                       fst (fn (last (a # map snd gaps)) (caller st0)))],
         caller := snd (fn (last (a # map snd gaps)) (caller st0))\<rparr>"
  using assms(4)
  by (simp add: run_append run_burst [OF assms(1,3)] run_def [of fn delay "[Elapse d]"]
        elapse_def fire_def Let_def assms(2) split: prod.splits)

lemma settled_step:
  "p < length (promises st) \<and> promises st ! p = Settled x \<Longrightarrow>
     p < length (promises (step fn delay e st)) \<and> promises (step fn delay e st) ! p = Settled x"
proof (cases e)
  case (Call a)
  assume "p < length (promises st) \<and> promises st ! p = Settled x"
  then show ?thesis by (simp add: Call call_fields nth_append)
next
  case (Elapse d)
  assume "p < length (promises st) \<and> promises st ! p = Settled x"
  then show ?thesis by (simp add: Elapse elapse_fields)
next
  case (Settle q)
  assume a: "p < length (promises st) \<and> promises st ! p = Settled x"
  then have "promises (settle q st) ! p = Settled x"
    by (auto simp: settle_def Let_def resolve_def nth_list_update split: option.splits sum.splits)
  with a show ?thesis by (simp add: Settle settle_fields)
qed

lemma settled_run:
  "p < length (promises st) \<and> promises st ! p = Settled x \<Longrightarrow>
     promises (run fn delay evs st) ! p = Settled x"
proof (induction evs arbitrary: st)
  case Nil
  then show ?case by (simp add: run_def)
next
  case (Cons e evs)
  from Cons.IH [OF settled_step [OF Cons.prems, of fn delay e]] show ?case
    by (simp add: run_def)
qed

lemma settle_resolves:
  "find (\<lambda>(q, r). q = p) (awaiting st) = Some (p, Inr v) \<Longrightarrow> p < length (promises st) \<Longrightarrow>
     promises st ! p = Pending \<Longrightarrow>
     p < length (promises (settle p st)) \<and> promises (settle p st) ! p = Settled (Resolved v)"
  by (simp add: settle_def resolve_def Let_def)

subsection \<open>A suspended callback resolves its promise when the invocation fulfils\<close>

lemma fold_fire_mono:
  "x \<in> set (awaiting st) \<Longrightarrow> x \<in> set (awaiting (fold (fire fn) ts st))"
  by (induction ts arbitrary: st) (simp_all add: fire_fields)

lemma elapse_mono: "x \<in> set (awaiting st) \<Longrightarrow> x \<in> set (awaiting (elapse fn d st))"
  by (simp add: elapse_def Let_def fold_fire_mono)

lemma settle_awaiting_other:
  "q \<noteq> p \<Longrightarrow> (p, r) \<in> set (awaiting st) \<Longrightarrow> (p, r) \<in> set (awaiting (settle q st))"
  by (auto simp: settle_def Let_def split: option.splits sum.splits dest!: find_fst)

lemma find_awaiting:
  assumes "distinct (map fst xs)" and "(p, r) \<in> set xs"
  shows "find (\<lambda>(q, r). q = p) xs = Some (p, r)"
proof (cases "find (\<lambda>(q, r). q = p) xs")
  case None
  with assms(2) show ?thesis by (auto simp: find_None_iff)
next
  case (Some x)
  obtain q r' where x: "x = (q, r')" by (cases x)
  with Some have "q = p" and "(p, r') \<in> set xs" by (auto dest: find_fst)
  with assms have "r' = r" by (auto dest: eq_key_imp_eq_value)
  with Some x \<open>q = p\<close> show ?thesis by simp
qed

lemma resolves_settle:
  assumes "resolves_to p v st"
  shows "p < length (promises (settle p st))
       \<and> promises (settle p st) ! p = Settled (Resolved v)"
proof (cases "p < length (promises st) \<and> promises st ! p = Settled (Resolved v)")
  case True
  from settled_step [OF True, of undefined 0 "Settle p"] show ?thesis by simp
next
  case False
  with assms have w: "wf st" and mem: "(p, Inr v) \<in> set (awaiting st)"
    by (auto simp: resolves_to_def)
  from w have "distinct (map fst (awaiting st))" by (simp add: wf_def)
  then have f: "find (\<lambda>(q, r). q = p) (awaiting st) = Some (p, Inr v)"
    using mem by (rule find_awaiting)
  from mem have "p \<in> fst ` set (awaiting st)" by (rule image_eqI [rotated]) simp
  with w have "p < length (promises st)" and "promises st ! p = Pending"
    by (simp_all add: wf_def)
  with f show ?thesis by (rule settle_resolves)
qed

lemma resolves_step:
  assumes "resolves_to p v st"
  shows "resolves_to p v (step fn delay e st)"
proof (cases "p < length (promises st) \<and> promises st ! p = Settled (Resolved v)")
  case True
  from settled_step [OF True, of fn delay e] show ?thesis by (simp add: resolves_to_def)
next
  case False
  with assms have w: "wf st" and mem: "(p, Inr v) \<in> set (awaiting st)"
    by (auto simp: resolves_to_def)
  have w': "wf (step fn delay e st)" by (rule wf_step [OF w])
  show ?thesis
  proof (cases e)
    case (Call a)
    with mem w' show ?thesis by (simp add: resolves_to_def call_fields)
  next
    case (Elapse d)
    with elapse_mono [OF mem, of fn d] w' show ?thesis by (simp add: resolves_to_def)
  next
    case (Settle q)
    show ?thesis
    proof (cases "q = p")
      case True
      with resolves_settle [OF assms] Settle show ?thesis by (simp add: resolves_to_def)
    next
      case False
      from settle_awaiting_other [OF False mem] w' Settle show ?thesis
        by (simp add: resolves_to_def)
    qed
  qed
qed

lemma resolves_run: "resolves_to p v st \<Longrightarrow> resolves_to p v (run fn delay evs st)"
  by (induction evs arbitrary: st) (simp_all add: run_def resolves_step)

text \<open>
  C2, as the code has it. A debounce cycle that starts on a wrapper with no timeout
  scheduled and no execution of the operation still unsettled (a fresh wrapper is one):
  a burst of calls, each less than \<open>delay\<close> after the one before; the \<open>i\<close>-th call of
  the burst, counted from \<open>0\<close>, returns the promise \<open>length (promises st0) + i\<close>.
  Once \<open>delay\<close> or more has passed after the last call, the operation has been invoked once,
  with the arguments of the last call, and nothing is scheduled. The promises of the
  earlier calls are pending in every later state. When the invocation fulfils with
  \<open>v\<close>, the promise of the last call is fulfilled with \<open>v\<close> from the moment the
  invocation settles, whatever happens before and after that moment.
\<close>

theorem debounce_burst:
  assumes "timeouts st0 = []" and "awaiting st0 = []"
    and "\<forall>(g, b)\<in>set gaps. g < delay" and "delay \<le> d"
  shows "caller (run fn delay (burst a gaps @ [Elapse d]) st0)
           = snd (fn (last (a # map snd gaps)) (caller st0))
       \<and> timeouts (run fn delay (burst a gaps @ [Elapse d]) st0) = []
       \<and> (\<forall>evs. \<forall>i<length gaps.
             promises (run fn delay (burst a gaps @ Elapse d # evs) st0)
               ! (length (promises st0) + i) = Pending)
       \<and> (\<forall>v evs evs'. fst (fn (last (a # map snd gaps)) (caller st0)) = Inr v \<longrightarrow>
             promises (run fn delay
                         (burst a gaps @ Elapse d # evs
                            @ Settle (length (promises st0) + length gaps) # evs') st0)
               ! (length (promises st0) + length gaps)
               = Settled (Resolved v))"
proof -
  let ?st = "run fn delay (burst a gaps @ [Elapse d]) st0"
  let ?P = "length (promises st0)"
  define la where "la = last (a # map snd gaps)"
  note st = run_burst_elapse [OF assms, of fn a, folded la_def]
  have split: "run fn delay (burst a gaps @ Elapse d # evs) st0 = run fn delay evs ?st" for evs
    using run_append [of fn delay "burst a gaps @ [Elapse d]" evs st0] by simp
  have c1: "caller ?st = snd (fn (last (a # map snd gaps)) (caller st0))"
    unfolding la_def [symmetric] by (simp add: st)
  have c2: "timeouts ?st = []" by (simp add: st)
  have c3: "\<forall>evs. \<forall>i<length gaps.
      promises (run fn delay (burst a gaps @ Elapse d # evs) st0) ! (?P + i) = Pending"
  proof (intro allI impI)
    fix evs i
    assume "i < length gaps"
    then have "abandoned (?P + i) ?st" by (simp add: st abandoned_def nth_Cons')
    then have "promises (run fn delay evs ?st) ! (?P + i) = Pending" by (rule abandoned_pending)
    then show "promises (run fn delay (burst a gaps @ Elapse d # evs) st0) ! (?P + i) = Pending"
      by (simp only: split [of evs])
  qed
  have c4: "\<forall>v evs evs'. fst (fn (last (a # map snd gaps)) (caller st0)) = Inr v \<longrightarrow>
      promises (run fn delay
                  (burst a gaps @ Elapse d # evs @ Settle (?P + length gaps) # evs') st0)
        ! (?P + length gaps) = Settled (Resolved v)"
  proof (intro allI impI)
    fix v evs evs'
    assume "fst (fn (last (a # map snd gaps)) (caller st0)) = Inr v"
    then have v: "fst (fn la (caller st0)) = Inr v" by (simp only: la_def)
    have "wf ?st" by (simp add: st wf_def nth_Cons')
    moreover have "(?P + length gaps, Inr v) \<in> set (awaiting ?st)" by (simp add: st v)
    ultimately have "resolves_to (?P + length gaps) v ?st" by (simp add: resolves_to_def)
    then have "resolves_to (?P + length gaps) v (run fn delay evs ?st)" by (rule resolves_run)
    then have "?P + length gaps < length (promises (settle (?P + length gaps) (run fn delay evs ?st)))
        \<and> promises (settle (?P + length gaps) (run fn delay evs ?st)) ! (?P + length gaps)
            = Settled (Resolved v)"
      by (rule resolves_settle)
    then have "promises (run fn delay evs' (settle (?P + length gaps) (run fn delay evs ?st)))
        ! (?P + length gaps) = Settled (Resolved v)"
      by (rule settled_run)
    moreover have "run fn delay (evs @ Settle (?P + length gaps) # evs') ?st
        = run fn delay evs' (settle (?P + length gaps) (run fn delay evs ?st))"
      by (simp add: run_append run_Cons)
    ultimately show "promises (run fn delay
                  (burst a gaps @ Elapse d # evs @ Settle (?P + length gaps) # evs') st0)
        ! (?P + length gaps) = Settled (Resolved v)"
      by (simp only: split [of "evs @ Settle (?P + length gaps) # evs'"])
  qed
  from c1 c2 c3 c4 show ?thesis by blast
qed

lemma used_wrapper_state:
  "used_wrapper = \<lparr>clock = 100, timer = None, timeouts = [], next_handle = 1,
     promises = [Settled (Resolved 1)], awaiting = [], caller = 1\<rparr>"
  by (simp add: used_wrapper_def run_def debounceAsync_def debounced_call_def elapse_def
        fire_def settle_def resolve_def counted_def Let_def)

theorem debounce_burst_witness:
  "timeouts used_wrapper = [] \<and> awaiting used_wrapper = [] \<and> (10::nat) < 100
   \<and> (100::nat) \<le> 150
   \<and> length (promises used_wrapper) = 1
   \<and> caller (run counted 100 (burst () [(10, ())] @ [Elapse 150]) used_wrapper) = 2
   \<and> promises (run counted 100 (burst () [(10, ())] @ Elapse 150 # [Settle 2, Elapse 500])
        used_wrapper) ! 1 = Pending
   \<and> promises (run counted 100
        (burst () [(10, ())] @ Elapse 150 # [Call ()] @ Settle 2 # [Elapse 500])
        used_wrapper) ! 2 = Settled (Resolved 2)"
proof -
  have h1: "timeouts used_wrapper = []" and h2: "awaiting used_wrapper = []"
    and len: "length (promises used_wrapper) = 1" and cal: "caller used_wrapper = 1"
    by (simp_all add: used_wrapper_state)
  have h3: "\<forall>(g, b)\<in>set [(10::nat, ())]. g < 100" by simp
  have h4: "(100::nat) \<le> 150" by simp
  note t = debounce_burst [OF h1 h2 h3 h4, of counted "()"]
  from t have c1: "caller (run counted 100 (burst () [(10, ())] @ [Elapse 150]) used_wrapper) = 2"
    by (simp add: counted_def cal)
  from t have "\<forall>evs. \<forall>i<length [(10::nat, ())].
      promises (run counted 100 (burst () [(10, ())] @ Elapse 150 # evs) used_wrapper)
        ! (length (promises used_wrapper) + i) = Pending" by blast
  then have c3: "promises (run counted 100 (burst () [(10, ())] @ Elapse 150 # [Settle 2, Elapse 500])
        used_wrapper) ! 1 = Pending" by (simp add: len)
  from t have "\<forall>v evs evs'. fst (counted (last (() # map snd [(10::nat, ())])) (caller used_wrapper))
        = Inr v \<longrightarrow>
      promises (run counted 100
                  (burst () [(10, ())] @ Elapse 150 # evs
                     @ Settle (length (promises used_wrapper) + length [(10::nat, ())]) # evs')
                  used_wrapper)
        ! (length (promises used_wrapper) + length [(10::nat, ())]) = Settled (Resolved v)"
    by blast
  from this [rule_format, of 2 "[Call ()]" "[Elapse 500]"]
  have c4: "promises (run counted 100
        (burst () [(10, ())] @ Elapse 150 # [Call ()] @ Settle 2 # [Elapse 500])
        used_wrapper) ! 2 = Settled (Resolved 2)"
    by (simp add: counted_def cal len numeral_2_eq_2)
  from h1 h2 len c1 c3 c4 show ?thesis by simp
qed

text \<open>
  The condition on the start of the cycle cannot be dropped. With \<open>delay = 200\<close>: a first
  call is executed at 200 and its invocation is unsettled when a call arrives at 240;
  the invocation settles, and \<^verbatim>\<open>timer = null\<close> after the \<^verbatim>\<open>await\<close> forgets the
  handle of the timeout scheduled at 240; the call at 340 then clears nothing, and the
  calls of 240 and 340, 100 apart, are both executed and both promises are fulfilled.
\<close>

lemma debounce_unsettled_execution_example:
  "promises (run counted 200
      [Call (), Elapse 200, Elapse 40, Call (), Settle 0, Elapse 100, Call (), Elapse 200,
       Settle 1, Settle 2] (debounceAsync 0))
     = [Settled (Resolved 1), Settled (Resolved 2), Settled (Resolved 3)]"
  by (simp add: run_def debounceAsync_def debounced_call_def clearTimeout_def elapse_def
        fire_def settle_def resolve_def counted_def Let_def)

text \<open>
  C2 as the specification words it does not hold: after two calls in a row the promise
  of the first call is never settled, whatever follows; the promise of the second call is
  fulfilled with the result of the one execution.
\<close>

theorem debounce_superseded_counterexample:
  "promises (run counted 100 [Call (), Call (), Elapse 100, Settle 1] (debounceAsync 0))
     = [Pending, Settled (Resolved 1)]
   \<and> \<not> (\<exists>evs. promises (run counted 100 (Call () # Call () # evs) (debounceAsync 0)) ! 0 \<noteq> Pending)"
proof -
  have a: "promises (run counted 100 [Call (), Call (), Elapse 100, Settle 1] (debounceAsync 0))
     = [Pending, Settled (Resolved 1)]"
    by (simp add: run_def debounceAsync_def debounced_call_def clearTimeout_def elapse_def
          fire_def settle_def resolve_def counted_def Let_def)
  let ?st = "run counted 100 [Call (), Call ()] (debounceAsync 0)"
  have "abandoned 0 ?st"
    by (simp add: abandoned_def run_def debounceAsync_def debounced_call_def clearTimeout_def Let_def)
  then have "promises (run counted 100 evs ?st) ! 0 = Pending" for evs
    by (rule abandoned_pending)
  then have b: "\<not> (\<exists>evs. promises (run counted 100 (Call () # Call () # evs) (debounceAsync 0)) ! 0
                  \<noteq> Pending)"
    by (simp add: run_def)
  from a b show ?thesis ..
qed

end
